theory Spec2Isabelle
  imports Main "HOL-Library.Monad_Syntax" "HOL-Library.Multiset"
begin

section \<open>Data model\<close>

text \<open>
  A \<open>Song*\<close> is an address; \<open>nullptr\<close> is \<open>None\<close>.  The free store maps an
  address to the \<open>Song\<close> object allocated there, or to \<open>None\<close> when nothing is
  allocated at that address (never allocated, or already deleted).

  A value of type \<open>int\<close> is an integer from \<open>INT_MIN\<close> to \<open>INT_MAX\<close> (32 bits).  An
  addition or subtraction whose result leaves this range is a signed overflow and has no
  defined result: \<open>checked\<close> gives \<open>None\<close> for it.  The counter \<open>i\<close> of the search loops runs
  from 0 up to an index that is itself an \<open>int\<close>, so \<open>i++\<close> stays in range.  The size of a
  container, where the code converts it to \<open>int\<close>, is taken as it is: a container has fewer
  than \<open>INT_MAX\<close> elements.
\<close>

type_synonym addr = nat

definition INT_MAX :: int where
  "INT_MAX = 2147483647"

definition INT_MIN :: int where
  "INT_MIN = - 2147483648"

definition checked :: "int \<Rightarrow> int option" where
  "checked x = (if INT_MIN \<le> x \<and> x \<le> INT_MAX then Some x else None)"

record Song =
  title :: string
  artist :: string
  genre :: string
  duration :: int
  prev :: "addr option"
  "next" :: "addr option"

type_synonym heap = "addr \<Rightarrow> Song option"

section \<open>Playlist\<close>

text \<open>
  The class \<open>Playlist\<close> holds the two anchors of the doubly linked list.  Every member
  function is a function of the free store and the anchors; it returns the new store and
  anchors, or \<open>None\<close> when it would dereference a pointer to an unallocated object (or
  never return).
\<close>

record Playlist =
  head :: "addr option"
  tail :: "addr option"

text \<open>Reads and writes of the link fields through a pointer.\<close>

definition get_next :: "heap \<Rightarrow> addr \<Rightarrow> addr option option" where
  "get_next h p = map_option next (h p)"

definition get_prev :: "heap \<Rightarrow> addr \<Rightarrow> addr option option" where
  "get_prev h p = map_option prev (h p)"

definition set_next :: "heap \<Rightarrow> addr \<Rightarrow> addr option \<Rightarrow> heap option" where
  "set_next h p v = (case h p of None \<Rightarrow> None | Some s \<Rightarrow> Some (h(p \<mapsto> s\<lparr>next := v\<rparr>)))"

definition set_prev :: "heap \<Rightarrow> addr \<Rightarrow> addr option \<Rightarrow> heap option" where
  "set_prev h p v = (case h p of None \<Rightarrow> None | Some s \<Rightarrow> Some (h(p \<mapsto> s\<lparr>prev := v\<rparr>)))"

text \<open>
  \<open>add_song\<close> (the overload with a genre).  The address \<open>new_song\<close> is the one the
  allocation returns; the caller of the model supplies it, and it must be unallocated before.
\<close>

definition add_song ::
  "heap \<Rightarrow> Playlist \<Rightarrow> addr \<Rightarrow> string \<Rightarrow> string \<Rightarrow> string \<Rightarrow> int \<Rightarrow> (heap \<times> Playlist) option" where
  "add_song h pl new_song t a g d =
     (let h0 = h(new_song \<mapsto> \<lparr>title = t, artist = a, genre = g, duration = d,
                               prev = None, next = None\<rparr>)
      in case head pl of
           None \<Rightarrow> Some (h0, pl\<lparr>head := Some new_song, tail := Some new_song\<rparr>)
         | Some _ \<Rightarrow>
            (case tail pl of
               None \<Rightarrow> None
             | Some old_tail \<Rightarrow> do {
                 h1 \<leftarrow> set_next h0 old_tail (Some new_song);
                 h2 \<leftarrow> set_prev h1 new_song (tail pl);
                 Some (h2, pl\<lparr>tail := Some new_song\<rparr>)
               }))"

text \<open>
  The loop \<open>while (temp && i < index) { temp = temp->next; i++; }\<close>, which occurs in
  \<open>delete_song\<close> and twice in \<open>move_song\<close>; the result is the final value of \<open>temp\<close>.
  The counter grows towards \<open>index\<close>, so the loop always ends.
\<close>

function advance :: "heap \<Rightarrow> addr option \<Rightarrow> int \<Rightarrow> int \<Rightarrow> addr option option" where
  "advance h temp i index =
     (case temp of
        None \<Rightarrow> Some None
      | Some p \<Rightarrow>
          if i < index
          then (case h p of None \<Rightarrow> None | Some s \<Rightarrow> advance h (next s) (i + 1) index)
          else Some temp)"
  by pat_completeness auto
termination
  by (relation "measure (\<lambda>(h, temp, i, index). nat (index - i))") auto

declare advance.simps [simp del]

text \<open>
  The four statements that take a node out of the list, in \<open>delete_song\<close> (under
  \<open>// Update links\<close>) and in \<open>move_song\<close> (under \<open>// Remove from current position\<close>); each
  statement reads the store the previous one left.
\<close>

definition unlink :: "heap \<Rightarrow> Playlist \<Rightarrow> addr \<Rightarrow> (heap \<times> Playlist) option" where
  "unlink h pl temp = do {
     tp \<leftarrow> get_prev h temp;
     tn \<leftarrow> get_next h temp;
     h1 \<leftarrow> (case tp of None \<Rightarrow> Some h | Some p \<Rightarrow> set_next h p tn);
     tn1 \<leftarrow> get_next h1 temp;
     tp1 \<leftarrow> get_prev h1 temp;
     h2 \<leftarrow> (case tn1 of None \<Rightarrow> Some h1 | Some n \<Rightarrow> set_prev h1 n tp1);
     tn2 \<leftarrow> get_next h2 temp;
     let pl1 = (if Some temp = head pl then pl\<lparr>head := tn2\<rparr> else pl);
     tp2 \<leftarrow> get_prev h2 temp;
     let pl2 = (if Some temp = tail pl1 then pl1\<lparr>tail := tp2\<rparr> else pl1);
     Some (h2, pl2)
   }"

definition delete_song :: "heap \<Rightarrow> Playlist \<Rightarrow> int \<Rightarrow> (heap \<times> Playlist) option" where
  "delete_song h pl index =
     (if head pl = None then Some (h, pl)
      else do {
        temp \<leftarrow> advance h (head pl) 0 index;
        case temp of
          None \<Rightarrow> Some (h, pl)
        | Some t \<Rightarrow> do {
            (h1, pl1) \<leftarrow> unlink h pl t;
            Some (h1(t := None), pl1)
          }
      })"

text \<open>
  The three ways \<open>move_song\<close> puts the node back.  In \<open>move_song\<close> itself, the decrement of
  \<open>to_index\<close> happens only when \<open>to_index > from_index\<close> and stays in range; the bound
  \<open>to_index - 1\<close> of the second search loop is computed only when \<open>temp\<close> is not null (the
  condition is \<open>temp && i < to_index - 1\<close>), and overflows for \<open>to_index = INT_MIN\<close>.
\<close>

definition insert_at_beginning :: "heap \<Rightarrow> Playlist \<Rightarrow> addr \<Rightarrow> (heap \<times> Playlist) option" where
  "insert_at_beginning h pl song_to_move = do {
     h1 \<leftarrow> set_next h song_to_move (head pl);
     h2 \<leftarrow> (case head pl of None \<Rightarrow> Some h1 | Some old_head \<Rightarrow> set_prev h1 old_head (Some song_to_move));
     let pl1 = pl\<lparr>head := Some song_to_move\<rparr>;
     Some (h2, if tail pl1 = None then pl1\<lparr>tail := Some song_to_move\<rparr> else pl1)
   }"

definition insert_at_end :: "heap \<Rightarrow> Playlist \<Rightarrow> addr \<Rightarrow> (heap \<times> Playlist) option" where
  "insert_at_end h pl song_to_move =
     (case tail pl of
        Some old_tail \<Rightarrow> do {
          h1 \<leftarrow> set_next h old_tail (Some song_to_move);
          h2 \<leftarrow> set_prev h1 song_to_move (tail pl);
          Some (h2, pl\<lparr>tail := Some song_to_move\<rparr>)
        }
      | None \<Rightarrow> Some (h, pl\<lparr>head := Some song_to_move, tail := Some song_to_move\<rparr>))"

definition insert_after :: "heap \<Rightarrow> Playlist \<Rightarrow> addr \<Rightarrow> addr \<Rightarrow> (heap \<times> Playlist) option" where
  "insert_after h pl temp song_to_move = do {
     tn \<leftarrow> get_next h temp;
     h1 \<leftarrow> set_next h song_to_move tn;
     h2 \<leftarrow> set_prev h1 song_to_move (Some temp);
     tn2 \<leftarrow> get_next h2 temp;
     (h3, pl1) \<leftarrow> (case tn2 of
                     Some n \<Rightarrow> do { h' \<leftarrow> set_prev h2 n (Some song_to_move); Some (h', pl) }
                   | None \<Rightarrow> Some (h2, pl\<lparr>tail := Some song_to_move\<rparr>));
     h4 \<leftarrow> set_next h3 temp (Some song_to_move);
     Some (h4, pl1)
   }"

definition move_song :: "heap \<Rightarrow> Playlist \<Rightarrow> int \<Rightarrow> int \<Rightarrow> (heap \<times> Playlist) option" where
  "move_song h pl from_index to_index =
     (if from_index = to_index \<or> head pl = None then Some (h, pl)
      else do {
        song_to_move \<leftarrow> advance h (head pl) 0 from_index;
        case song_to_move of
          None \<Rightarrow> Some (h, pl)
        | Some m \<Rightarrow> do {
            (h1, pl1) \<leftarrow> unlink h pl m;
            h2 \<leftarrow> set_prev h1 m None;
            h3 \<leftarrow> set_next h2 m None;
            let to_index = (if to_index > from_index then to_index - 1 else to_index);
            if to_index = 0 then insert_at_beginning h3 pl1 m
            else do {
              temp \<leftarrow> (case head pl1 of
                         None \<Rightarrow> Some None
                       | Some _ \<Rightarrow> do {
                           bound \<leftarrow> checked (to_index - 1);
                           advance h3 (head pl1) 0 bound
                         });
              case temp of
                None \<Rightarrow> insert_at_end h3 pl1 m
              | Some t \<Rightarrow> insert_after h3 pl1 t m
            }
          }
      })"

text \<open>
  \<open>reverse_playlist\<close>: the loop swaps the two links of the current node and goes on with
  what was its \<open>next\<close> (read through \<open>prev\<close> after the swap); then the anchors are swapped.
\<close>

partial_function (option) reverse_loop :: "heap \<Rightarrow> addr option \<Rightarrow> heap option" where
  "reverse_loop h cur =
     (case cur of
        None \<Rightarrow> Some h
      | Some p \<Rightarrow>
          (case h p of
             None \<Rightarrow> None
           | Some s \<Rightarrow>
               (let s' = s\<lparr>next := prev s, prev := next s\<rparr>
                in reverse_loop (h(p \<mapsto> s')) (prev s'))))"

declare reverse_loop.simps [code]

definition reverse_playlist :: "heap \<Rightarrow> Playlist \<Rightarrow> (heap \<times> Playlist) option" where
  "reverse_playlist h pl = do {
     h' \<leftarrow> reverse_loop h (head pl);
     Some (h', pl\<lparr>head := tail pl, tail := head pl\<rparr>)
   }"

text \<open>\<open>get_all_songs\<close>: follow \<open>next\<close> from \<open>head\<close>, collecting the pointers.\<close>

partial_function (option) get_all_songs_loop ::
  "heap \<Rightarrow> addr list \<Rightarrow> addr option \<Rightarrow> addr list option" where
  "get_all_songs_loop h songs temp =
     (case temp of
        None \<Rightarrow> Some songs
      | Some p \<Rightarrow>
          (case h p of None \<Rightarrow> None | Some s \<Rightarrow> get_all_songs_loop h (songs @ [p]) (next s)))"

declare get_all_songs_loop.simps [code]

definition get_all_songs :: "heap \<Rightarrow> Playlist \<Rightarrow> addr list option" where
  "get_all_songs h pl = get_all_songs_loop h [] (head pl)"

text \<open>
  The catalog a store and its anchors represent.  A link field of the store is the map
  \<open>get_next h\<close> or \<open>get_prev h\<close> from the allocated addresses to the pointer stored there.
  \<open>path g p as q\<close>: following the link field \<open>g\<close> from \<open>p\<close> visits exactly the allocated
  nodes \<open>as\<close>, in this order, and arrives at \<open>q\<close>.  A well-formed playlist with the songs
  \<open>xs\<close> reaches \<open>nullptr\<close> from \<open>head\<close> through \<open>xs\<close> along \<open>next\<close>, and from \<open>tail\<close> through
  the reversed \<open>xs\<close> along \<open>prev\<close>.
\<close>

fun path :: "(addr \<Rightarrow> addr option option) \<Rightarrow> addr option \<Rightarrow> addr list \<Rightarrow> addr option \<Rightarrow> bool" where
  "path g p [] q = (p = q)"
| "path g p (a # as) q = (p = Some a \<and> (case g a of None \<Rightarrow> False | Some n \<Rightarrow> path g n as q))"

definition is_playlist :: "heap \<Rightarrow> Playlist \<Rightarrow> addr list \<Rightarrow> bool" where
  "is_playlist h pl xs =
     (path (get_next h) (head pl) xs None \<and> path (get_prev h) (tail pl) (rev xs) None)"

text \<open>
  What \<open>reverse_playlist\<close> does to the store: the two links of every node of a set are
  exchanged.
\<close>

definition swap_links :: "Song \<Rightarrow> Song" where
  "swap_links s = s\<lparr>next := prev s, prev := next s\<rparr>"

definition swap_on :: "addr set \<Rightarrow> heap \<Rightarrow> heap" where
  "swap_on A h = (\<lambda>a. if a \<in> A then map_option swap_links (h a) else h a)"

text \<open>The first element of a sequence and the element at an index, or \<open>nullptr\<close>.\<close>

definition first :: "addr list \<Rightarrow> addr option" where
  "first xs = (case xs of [] \<Rightarrow> None | x # _ \<Rightarrow> Some x)"

definition node_at :: "addr list \<Rightarrow> nat \<Rightarrow> addr option" where
  "node_at xs k = (if k < length xs then Some (xs ! k) else None)"

text \<open>
  The sequence \<open>move_song\<close> leaves for indices in range: the song at \<open>i\<close> is taken out, and put
  back at index \<open>j - 1\<close> of the remaining sequence when \<open>j > i\<close>, at index \<open>j\<close> otherwise.
\<close>

definition moved :: "addr list \<Rightarrow> nat \<Rightarrow> nat \<Rightarrow> addr list" where
  "moved xs i j =
     (let rest = take i xs @ drop (Suc i) xs;
          k = (if j > i then j - 1 else j)
      in take k rest @ xs ! i # drop k rest)"

section \<open>PlaybackHistory\<close>

text \<open>The stack of played songs, top first.\<close>

type_synonym PlaybackHistory = "addr list"

definition add :: "PlaybackHistory \<Rightarrow> addr \<Rightarrow> PlaybackHistory" where
  "add history s = s # history"

section \<open>SongRatingTree\<close>

text \<open>
  \<open>ratingMap\<close> is a \<open>std::map\<close> from rating to the vector of songs.  Its \<open>operator[]\<close>
  inserts an empty vector under a key that is absent, and gives the stored vector.
\<close>

type_synonym ratingMap = "int \<Rightarrow> addr list option"

definition subscript :: "ratingMap \<Rightarrow> int \<Rightarrow> ratingMap \<times> addr list" where
  "subscript m k = (case m k of None \<Rightarrow> (m(k \<mapsto> []), []) | Some v \<Rightarrow> (m, v))"

definition insert_song :: "ratingMap \<Rightarrow> addr \<Rightarrow> int \<Rightarrow> ratingMap" where
  "insert_song m s rating =
     (let (m1, vec) = subscript m rating in m1(rating \<mapsto> vec @ [s]))"

text \<open>\<open>search_by_rating\<close> returns a copy of the vector; the map it leaves is the second component.\<close>

definition search_by_rating :: "ratingMap \<Rightarrow> int \<Rightarrow> addr list \<times> ratingMap" where
  "search_by_rating m rating =
     (let (m1, vec) = subscript m rating in (vec, m1))"

text \<open>
  \<open>std::remove\<close> moves the elements different from the value to the front, keeping their
  order, and returns the end of that range; \<open>erase\<close> then cuts the vector there.
\<close>

fun std_remove :: "'a list \<Rightarrow> 'a \<Rightarrow> 'a list" where
  "std_remove [] v = []"
| "std_remove (x # xs) v = (if x = v then std_remove xs v else x # std_remove xs v)"

definition SongRatingTree_delete_song :: "ratingMap \<Rightarrow> addr \<Rightarrow> int \<Rightarrow> ratingMap" where
  "SongRatingTree_delete_song m s rating =
     (let (m1, vec) = subscript m rating in m1(rating \<mapsto> std_remove vec s))"

definition get_song_count_by_rating :: "ratingMap \<Rightarrow> (int \<Rightarrow> int option)" where
  "get_song_count_by_rating m =
     (\<lambda>rating. case m rating of None \<Rightarrow> None | Some vec \<Rightarrow> Some (int (length vec)))"

section \<open>RecentlySkippedTracker and RecentlyAddedTracker\<close>

text \<open>
  Each tracker is its deque, front first.  \<open>std::find\<close> gives the position of the first
  element equal to the value, the end position when there is none; \<open>erase\<close> takes the
  element at a position out.
\<close>

definition MAX_SKIPPED :: nat where
  "MAX_SKIPPED = 10"

definition MAX_RECENT :: nat where
  "MAX_RECENT = 15"

fun std_find :: "'a list \<Rightarrow> 'a \<Rightarrow> nat" where
  "std_find [] v = 0"
| "std_find (x # xs) v = (if x = v then 0 else Suc (std_find xs v))"

definition erase :: "'a list \<Rightarrow> nat \<Rightarrow> 'a list" where
  "erase xs i = take i xs @ drop (Suc i) xs"

definition addSkippedSong :: "addr list \<Rightarrow> addr \<Rightarrow> addr list" where
  "addSkippedSong skippedSongs s =
     (let it = std_find skippedSongs s;
          d1 = (if it \<noteq> length skippedSongs then erase skippedSongs it else skippedSongs);
          d2 = s # d1
      in if length d2 > MAX_SKIPPED then butlast d2 else d2)"

definition isRecentlySkipped :: "addr list \<Rightarrow> addr \<Rightarrow> bool" where
  "isRecentlySkipped skippedSongs s = (std_find skippedSongs s \<noteq> length skippedSongs)"

definition addRecentSong :: "addr list \<Rightarrow> addr \<Rightarrow> addr list" where
  "addRecentSong recentlyAdded s =
     (let it = std_find recentlyAdded s;
          d1 = (if it \<noteq> length recentlyAdded then erase recentlyAdded it else recentlyAdded);
          d2 = s # d1
      in if length d2 > MAX_RECENT then butlast d2 else d2)"

text \<open>
  The step both trackers perform, each for its own capacity (see \<open>addSkippedSong_touch\<close> and
  \<open>addRecentSong_touch\<close>).
\<close>

definition touch :: "nat \<Rightarrow> addr list \<Rightarrow> addr \<Rightarrow> addr list" where
  "touch C w x = (let d = x # remove1 x w in if length d > C then butlast d else d)"

section \<open>PlaylistPlayer\<close>

record PlaylistPlayer =
  currentIndex :: int
  isPlaying :: bool
  currentSong :: "addr option"

text \<open>The constructor: index \<open>-1\<close>, not playing, no current song.\<close>

definition new_player :: PlaylistPlayer where
  "new_player = \<lparr>currentIndex = - 1, isPlaying = False, currentSong = None\<rparr>"

text \<open>
  \<open>playCounts[t]++\<close> on the \<open>unordered_map\<close> of play counts: an absent title starts at 0, and
  the increment of a count that is \<open>INT_MAX\<close> overflows.
\<close>

definition increment :: "(string \<Rightarrow> int option) \<Rightarrow> string \<Rightarrow> (string \<Rightarrow> int option) option" where
  "increment playCounts t = do {
     c \<leftarrow> checked ((case playCounts t of None \<Rightarrow> 0 | Some c \<Rightarrow> c) + 1);
     Some (playCounts(t \<mapsto> c))
   }"

text \<open>The line \<open>playNext\<close> prints, which tells its two failures apart.\<close>

datatype notice = Playlist_is_empty | Reached_end_of_playlist | Next_song

text \<open>
  \<open>playNext\<close> returns its boolean and the line it printed, with the player, the history and
  the play counts as it leaves them.  Reading \<open>songs[currentIndex]\<close> at a negative index, or
  the title of an unallocated song, has no defined result; neither has \<open>currentIndex + 1\<close>
  (in the comparison, and again in \<open>currentIndex++\<close>) for an index that is \<open>INT_MAX\<close>.
\<close>

definition playNext ::
  "heap \<Rightarrow> Playlist \<Rightarrow> PlaylistPlayer \<Rightarrow> PlaybackHistory \<Rightarrow> (string \<Rightarrow> int option)
   \<Rightarrow> (bool \<times> notice \<times> PlaylistPlayer \<times> PlaybackHistory \<times> (string \<Rightarrow> int option)) option" where
  "playNext h playlist player ph playCounts = do {
     songs \<leftarrow> get_all_songs h playlist;
     if songs = [] then Some (False, Playlist_is_empty, player, ph, playCounts)
     else do {
       next_index \<leftarrow> checked (currentIndex player + 1);
       if next_index \<ge> int (length songs)
         then Some (False, Reached_end_of_playlist, player, ph, playCounts)
       else
         let player1 = player\<lparr>currentIndex := next_index\<rparr>
         in if currentIndex player1 < 0 then None
            else
              let player2 = player1\<lparr>currentSong := Some (songs ! nat (currentIndex player1))\<rparr>;
                  player3 = player2\<lparr>isPlaying := True\<rparr>
              in do {
                cs \<leftarrow> currentSong player3;
                s \<leftarrow> h cs;
                playCounts' \<leftarrow> increment playCounts (title s);
                Some (True, Next_song, player3, add ph cs, playCounts')
              }
     }
   }"

section \<open>AutoReplaySystem\<close>

text \<open>
  \<open>::tolower\<close> in the C locale: the 26 upper-case ASCII letters (codes 65 to 90) are
  mapped to their lower-case counterparts (code + 32), every other character, also every byte
  outside ASCII, is unchanged.
\<close>

definition tolower :: "char \<Rightarrow> char" where
  "tolower c = (let n = (of_char c :: nat) in if 65 \<le> n \<and> n \<le> 90 then char_of (n + 32) else c)"

text \<open>The member \<open>calmingGenres\<close> with its initialiser.\<close>

definition calmingGenres :: "string list" where
  "calmingGenres = [''Lo-Fi'', ''Jazz'', ''Classical'', ''Ambient'', ''Chill'', ''Lofi'']"

text \<open>The range-for loop of \<open>isCalming\<close> over the genres still to be compared.\<close>

fun isCalming_loop :: "string \<Rightarrow> string list \<Rightarrow> bool" where
  "isCalming_loop lowerGenre [] = False"
| "isCalming_loop lowerGenre (calming # rest) =
     (let lowerCalming = map tolower calming
      in if lowerGenre = lowerCalming then True else isCalming_loop lowerGenre rest)"

definition isCalming :: "string \<Rightarrow> bool" where
  "isCalming g = (let lowerGenre = map tolower g in isCalming_loop lowerGenre calmingGenres)"

text \<open>
  The notion the specification uses for genre names: two strings are equal when compared
  case-insensitively, that is, after folding the case of every character.
\<close>

definition equal_ignoring_case :: "string \<Rightarrow> string \<Rightarrow> bool" where
  "equal_ignoring_case a b = (map tolower a = map tolower b)"

text \<open>
  The comparison of the sort in \<open>getTop3CalmingSongs\<close>: \<open>std::greater\<close> on pairs of a
  play count and a song pointer is \<open>operator>\<close> of \<open>std::pair\<close>, that is \<open>operator<\<close> with
  the arguments exchanged, and \<open>operator<\<close> compares the first components, then the second.
\<close>

definition pair_less :: "int \<times> addr \<Rightarrow> int \<times> addr \<Rightarrow> bool" where
  "pair_less a b = (fst a < fst b \<or> (\<not> fst b < fst a \<and> snd a < snd b))"

definition pair_greater :: "int \<times> addr \<Rightarrow> int \<times> addr \<Rightarrow> bool" where
  "pair_greater a b = pair_less b a"

text \<open>
  \<open>std::sort\<close> with a comparison: the result is ordered by the comparison and has the
  elements of the input; which algorithm produces it is left open, and here it is insertion
  sort.  (For the comparison above, all ordered arrangements of the same elements are equal,
  see \<open>std_sort_unique\<close>.)
\<close>

fun insert_sorted :: "('a \<Rightarrow> 'a \<Rightarrow> bool) \<Rightarrow> 'a \<Rightarrow> 'a list \<Rightarrow> 'a list" where
  "insert_sorted cmp x [] = [x]"
| "insert_sorted cmp x (y # ys) =
     (if cmp y x then y # insert_sorted cmp x ys else x # y # ys)"

definition std_sort :: "('a \<Rightarrow> 'a \<Rightarrow> bool) \<Rightarrow> 'a list \<Rightarrow> 'a list" where
  "std_sort cmp xs = foldr (insert_sorted cmp) xs []"

text \<open>\<open>playCounts.count(t) ? playCounts.at(t) : 0\<close>.\<close>

definition play_count :: "(string \<Rightarrow> int option) \<Rightarrow> string \<Rightarrow> int" where
  "play_count playCounts t = (case playCounts t of Some c \<Rightarrow> c | None \<Rightarrow> 0)"

text \<open>The filtering loop of \<open>getTop3CalmingSongs\<close> over the songs still to be looked at.\<close>

fun calming_loop ::
  "heap \<Rightarrow> (string \<Rightarrow> int option) \<Rightarrow> addr list \<Rightarrow> (int \<times> addr) list \<Rightarrow> addr list
   \<Rightarrow> (int \<times> addr) list option" where
  "calming_loop h playCounts skipTracker calmingSongs [] = Some calmingSongs"
| "calming_loop h playCounts skipTracker calmingSongs (sp # rest) =
     (case h sp of
        None \<Rightarrow> None
      | Some s \<Rightarrow>
          if isCalming (genre s) \<and> \<not> isRecentlySkipped skipTracker sp
          then let playCount = play_count playCounts (title s)
               in calming_loop h playCounts skipTracker (calmingSongs @ [(playCount, sp)]) rest
          else calming_loop h playCounts skipTracker calmingSongs rest)"

definition getTop3CalmingSongs ::
  "heap \<Rightarrow> addr list \<Rightarrow> (string \<Rightarrow> int option) \<Rightarrow> addr list \<Rightarrow> addr list option" where
  "getTop3CalmingSongs h allSongs playCounts skipTracker = do {
     calmingSongs \<leftarrow> calming_loop h playCounts skipTracker [] allSongs;
     if calmingSongs = [] then Some []
     else
       let sorted = std_sort pair_greater calmingSongs
       in Some (map (\<lambda>i. snd (sorted ! i)) [0 ..< min 3 (length sorted)])
   }"

text \<open>What the filtering loop keeps of a song, and the pair it stores for it.\<close>

definition qualifies :: "heap \<Rightarrow> addr list \<Rightarrow> addr \<Rightarrow> bool" where
  "qualifies h skipTracker sp =
     (case h sp of None \<Rightarrow> False | Some s \<Rightarrow> isCalming (genre s) \<and> sp \<notin> set skipTracker)"

definition plays :: "heap \<Rightarrow> (string \<Rightarrow> int option) \<Rightarrow> addr \<Rightarrow> int" where
  "plays h playCounts sp =
     (case h sp of None \<Rightarrow> 0 | Some s \<Rightarrow> play_count playCounts (title s))"

definition candidate :: "heap \<Rightarrow> (string \<Rightarrow> int option) \<Rightarrow> addr \<Rightarrow> int \<times> addr" where
  "candidate h playCounts sp = (plays h playCounts sp, sp)"

text \<open>Not ranked below: \<open>a\<close> may stand before \<open>b\<close> in a sequence sorted by \<open>pair_greater\<close>.\<close>

definition ranks_before :: "int \<times> addr \<Rightarrow> int \<times> addr \<Rightarrow> bool" where
  "ranks_before a b = (\<not> pair_greater b a)"

section \<open>Calming genres\<close>

lemma isCalming_loop_iff:
  "isCalming_loop l cs = (l \<in> set (map (map tolower) cs))"
  by (induction cs) (auto simp: Let_def)

text \<open>
  C6, as the specification states it, fails on the code: the genre \<open>Lofi\<close> is classified as
  calming although, compared case-insensitively, it is none of Lo-Fi, Jazz, Classical,
  Ambient, Chill.
\<close>

theorem isCalming_five_genres_counterexample:
  "isCalming ''Lofi''
   \<and> \<not> equal_ignoring_case ''Lofi'' ''Lo-Fi''
   \<and> \<not> equal_ignoring_case ''Lofi'' ''Jazz''
   \<and> \<not> equal_ignoring_case ''Lofi'' ''Classical''
   \<and> \<not> equal_ignoring_case ''Lofi'' ''Ambient''
   \<and> \<not> equal_ignoring_case ''Lofi'' ''Chill''"
  by code_simp

text \<open>
  C6 (amended): for every genre string \<open>g\<close>, \<open>isCalming g\<close> is true if and only if \<open>g\<close>,
  compared case-insensitively, equals one of the six genres Lo-Fi, Jazz, Classical, Ambient,
  Chill, Lofi.
\<close>

theorem isCalming_six_genres:
  "isCalming g \<longleftrightarrow>
     equal_ignoring_case g ''Lo-Fi'' \<or> equal_ignoring_case g ''Jazz''
     \<or> equal_ignoring_case g ''Classical'' \<or> equal_ignoring_case g ''Ambient''
     \<or> equal_ignoring_case g ''Chill'' \<or> equal_ignoring_case g ''Lofi''"
  unfolding isCalming_def Let_def isCalming_loop_iff calmingGenres_def equal_ignoring_case_def
  by auto

section \<open>Rating groups\<close>

lemma std_remove_filter: "std_remove xs v = filter (\<lambda>x. x \<noteq> v) xs"
  by (induction xs) auto

text \<open>
  C8, as the specification states it, fails on the code: after the same song was inserted twice
  under rating 5, removing it leaves no occurrence in the group, whereas taking out the first
  occurrence only would leave one.
\<close>

theorem delete_song_first_occurrence_counterexample:
  "insert_song (insert_song Map.empty 7 5) 7 5 5 = Some [7, 7]
   \<and> SongRatingTree_delete_song (insert_song (insert_song Map.empty 7 5) 7 5) 7 5 5 = Some []
   \<and> remove1 (7::addr) [7, 7] = [7]"
  by (simp add: insert_song_def SongRatingTree_delete_song_def subscript_def)

text \<open>
  C8 (amended): for every rating-groups state, \<open>remove(trackRef, rating)\<close> removes every
  occurrence of that reference from the group for that rating (so no occurrence remains, also
  when the reference was inserted twice), keeps the other references of the group in their
  order and leaves the other groups as they are; when the group exists and does not contain
  the reference the state is unchanged, and when the rating has no group an empty group is
  created for it.
\<close>

theorem delete_song_removes_every_occurrence:
  "SongRatingTree_delete_song m s rating rating
       = Some (filter (\<lambda>x. x \<noteq> s) (case m rating of None \<Rightarrow> [] | Some vec \<Rightarrow> vec))
   \<and> (\<forall>vec'. SongRatingTree_delete_song m s rating rating = Some vec' \<longrightarrow> s \<notin> set vec')
   \<and> (\<forall>r. r \<noteq> rating \<longrightarrow> SongRatingTree_delete_song m s rating r = m r)
   \<and> (\<forall>vec. m rating = Some vec \<and> s \<notin> set vec \<longrightarrow> SongRatingTree_delete_song m s rating = m)
   \<and> (m rating = None \<longrightarrow> SongRatingTree_delete_song m s rating = m(rating \<mapsto> []))"
  by (auto simp: SongRatingTree_delete_song_def subscript_def std_remove_filter filter_id_conv
           split: option.splits)

theorem delete_song_removes_every_occurrence_witness:
  "SongRatingTree_delete_song [5 \<mapsto> [7, 8, 7], 3 \<mapsto> [7]] 7 5 5 = Some [8]
   \<and> SongRatingTree_delete_song [5 \<mapsto> [7, 8, 7], 3 \<mapsto> [7]] 7 5 3 = Some [7]
   \<and> SongRatingTree_delete_song [5 \<mapsto> [7, 8, 7], 3 \<mapsto> [7]] 9 5 = [5 \<mapsto> [7, 8, 7], 3 \<mapsto> [7]]
   \<and> SongRatingTree_delete_song [5 \<mapsto> [7, 8, 7], 3 \<mapsto> [7]] 7 4 = [5 \<mapsto> [7, 8, 7], 3 \<mapsto> [7], 4 \<mapsto> []]"
proof -
  let ?m = "[5 \<mapsto> [7, 8, 7], 3 \<mapsto> [7::addr]] :: ratingMap"
  have a: "?m 5 = Some [7, 8, 7]" and b: "?m 4 = None" and c: "(9::addr) \<notin> set [7, 8, 7]"
    by simp_all
  from delete_song_removes_every_occurrence [of ?m 7 5] a
  have 1: "SongRatingTree_delete_song ?m 7 5 5 = Some [8]"
    and 2: "SongRatingTree_delete_song ?m 7 5 3 = Some [7]" by simp_all
  from delete_song_removes_every_occurrence [of ?m 9 5] a c
  have 3: "SongRatingTree_delete_song ?m 9 5 = ?m" by blast
  from delete_song_removes_every_occurrence [of ?m 7 4] b
  have 4: "SongRatingTree_delete_song ?m 7 4 = ?m(4 \<mapsto> [])" by blast
  from 1 2 3 4 show ?thesis by simp
qed

text \<open>
  C10: \<open>search_by_rating\<close> is not a pure read.  For a rating \<open>r\<close> that has no group, the call
  returns the empty sequence and leaves a map in which \<open>r\<close> has an empty group, so that
  \<open>get_song_count_by_rating\<close> afterwards has an entry for \<open>r\<close> with count 0, which it does
  not have before the call; the entries of the other ratings are the same.
\<close>

theorem search_by_rating_creates_group:
  "m r = None \<Longrightarrow>
     search_by_rating m r = ([], m(r \<mapsto> []))
     \<and> get_song_count_by_rating m r = None
     \<and> get_song_count_by_rating (snd (search_by_rating m r)) r = Some 0
     \<and> (\<forall>r'. r' \<noteq> r \<longrightarrow>
           get_song_count_by_rating (snd (search_by_rating m r)) r' = get_song_count_by_rating m r')"
  by (simp add: search_by_rating_def subscript_def get_song_count_by_rating_def)

theorem search_by_rating_creates_group_witness:
  "insert_song Map.empty 7 5 4 = None
   \<and> search_by_rating (insert_song Map.empty 7 5) 4 = ([], (insert_song Map.empty 7 5)(4 \<mapsto> []))
   \<and> get_song_count_by_rating (insert_song Map.empty 7 5) 4 = None
   \<and> get_song_count_by_rating (snd (search_by_rating (insert_song Map.empty 7 5) 4)) 4 = Some 0"
proof -
  have h: "insert_song Map.empty 7 5 4 = None"
    by (simp add: insert_song_def subscript_def)
  from search_by_rating_creates_group [of "insert_song Map.empty 7 5" 4] h
  show ?thesis by blast
qed

section \<open>Recency trackers\<close>

lemma std_find_le: "std_find xs v \<le> length xs"
  by (induction xs) auto

lemma std_find_end: "(std_find xs v = length xs) = (v \<notin> set xs)"
  using std_find_le [of _ v] by (induction xs) (auto simp: Suc_le_eq not_less_eq_eq)

lemma erase_find: "erase xs (std_find xs v) = remove1 v xs"
  by (induction xs) (auto simp: erase_def)

lemma isRecentlySkipped_iff: "isRecentlySkipped skippedSongs s = (s \<in> set skippedSongs)"
  by (simp add: isRecentlySkipped_def std_find_end)

lemma addSkippedSong_touch: "addSkippedSong = touch MAX_SKIPPED"
  by (intro ext) (simp add: addSkippedSong_def touch_def Let_def erase_find std_find_end remove1_idem)

lemma addRecentSong_touch: "addRecentSong = touch MAX_RECENT"
  by (intro ext) (simp add: addRecentSong_def touch_def Let_def erase_find std_find_end remove1_idem)

lemma remove1_take_in: "x \<in> set (take n w) \<Longrightarrow> remove1 x (take n w) = take (n - 1) (remove1 x w)"
proof (induction w arbitrary: n)
  case Nil
  then show ?case by simp
next
  case (Cons a w)
  then show ?case by (cases n) (auto simp: take_Cons')
qed

lemma remove1_take_notin: "x \<notin> set (take n w) \<Longrightarrow> take n (remove1 x w) = take n w"
proof (induction w arbitrary: n)
  case Nil
  then show ?case by simp
next
  case (Cons a w)
  then show ?case by (cases n) auto
qed

lemma take_touch_step:
  assumes "0 < C"
  shows "take C (x # remove1 x (take C w)) = take C (x # remove1 x w)"
proof -
  from assms obtain k where C: "C = Suc k" by (cases C) auto
  show ?thesis
  proof (cases "x \<in> set (take C w)")
    case True
    then show ?thesis by (simp add: C remove1_take_in)
  next
    case False
    have "take k (take C w) = take k w" by (simp add: C min_def)
    moreover have "take k (remove1 x w) = take k w"
    proof -
      have "take k (take C (remove1 x w)) = take k (take C w)"
        using remove1_take_notin [OF False] by simp
      then show ?thesis by (simp add: C min_def)
    qed
    ultimately show ?thesis using False by (simp add: C remove1_idem)
  qed
qed

lemma touch_take:
  assumes "length w \<le> C"
  shows "touch C w x = take C (x # remove1 x w)"
proof -
  have "length (remove1 x w) \<le> length w" by (simp add: length_remove1)
  with assms have le: "length (x # remove1 x w) \<le> Suc C" by simp
  show ?thesis
  proof (cases "length (x # remove1 x w) > C")
    case True
    with le have "length (x # remove1 x w) = Suc C" by simp
    then have "butlast (x # remove1 x w) = take C (x # remove1 x w)"
      by (simp add: butlast_conv_take)
    with True show ?thesis by (simp only: touch_def Let_def if_True)
  next
    case False
    then show ?thesis by (simp add: touch_def Let_def)
  qed
qed

lemma remdups_snoc: "remdups (ts @ [x]) = filter (\<lambda>y. y \<noteq> x) (remdups ts) @ [x]"
  by (induction ts) auto

lemma recency_snoc: "rev (remdups (ts @ [x])) = x # remove1 x (rev (remdups ts))"
proof -
  have "remove1 x (rev (remdups ts)) = removeAll x (rev (remdups ts))"
    by (simp add: distinct_remove1_removeAll)
  also have "\<dots> = rev (filter (\<lambda>y. y \<noteq> x) (remdups ts))"
    by (simp add: removeAll_filter_not_eq rev_filter) metis
  finally show ?thesis by (simp add: remdups_snoc)
qed

text \<open>
  After the touches \<open>ts\<close> on an empty tracker the window holds the most recently touched
  distinct songs, the latest first, cut at the capacity.
\<close>

lemma touch_window:
  assumes "0 < C"
  shows "foldl (touch C) [] ts = take C (rev (remdups ts))"
proof (induction ts rule: rev_induct)
  case Nil
  then show ?case by simp
next
  case (snoc x ts)
  have "foldl (touch C) [] (ts @ [x]) = touch C (take C (rev (remdups ts))) x"
    by (simp add: snoc.IH)
  also have "\<dots> = take C (x # remove1 x (take C (rev (remdups ts))))"
    by (rule touch_take) simp
  also have "\<dots> = take C (x # remove1 x (rev (remdups ts)))"
    by (rule take_touch_step) (rule assms)
  finally show ?case by (simp only: recency_snoc)
qed

lemma window_properties:
  assumes "0 < C" and "w = foldl (touch C) [] ts"
  shows "length w \<le> C \<and> distinct w \<and> (ts \<noteq> [] \<longrightarrow> hd w = last ts)
         \<and> w = take C (rev (remdups ts))
         \<and> (\<forall>x. x \<in> set w \<longrightarrow> touch C w x = x # remove1 x w)
         \<and> (\<forall>x. x \<notin> set w \<and> length w < C \<longrightarrow> touch C w x = x # w)
         \<and> (\<forall>x. x \<notin> set w \<and> length w = C \<longrightarrow> touch C w x = x # butlast w)"
proof -
  have w: "w = take C (rev (remdups ts))"
    using assms by (simp add: touch_window)
  have len: "length w \<le> C" by (simp add: w)
  have dist: "distinct w" by (simp add: w)
  have front: "hd w = last ts" if "ts \<noteq> []"
  proof -
    from that obtain ys y where ts: "ts = ys @ [y]" by (cases ts rule: rev_cases) auto
    from \<open>0 < C\<close> obtain k where "C = Suc k" by (cases C) auto
    then show ?thesis by (simp add: w ts recency_snoc)
  qed
  have inw: "touch C w x = x # remove1 x w" if "x \<in> set w" for x
  proof -
    from that have "length (remove1 x w) = length w - 1" by (simp add: length_remove1)
    moreover from that have "0 < length w" by (cases w) auto
    ultimately have "length (x # remove1 x w) \<le> C" using len by simp
    then show ?thesis by (simp add: touch_def Let_def)
  qed
  have room: "touch C w x = x # w" if "x \<notin> set w" "length w < C" for x
    using that by (simp add: touch_def Let_def remove1_idem)
  have full: "touch C w x = x # butlast w" if "x \<notin> set w" "length w = C" for x
    using that \<open>0 < C\<close> by (cases w) (auto simp: touch_def Let_def remove1_idem)
  from len dist front w inw room full show ?thesis by blast
qed

text \<open>
  C4: after any finite sequence \<open>ts\<close> of touches on a fresh tracker, the window of the skip
  tracker (capacity 10) and of the addition tracker (capacity 15) has at most capacity many
  entries and no reference twice; its front is the track touched last; it consists of the
  most recently touched distinct tracks, most recent first.  A further touch of a track in the
  window moves it to the front; a touch of a track outside a full window puts it in front and
  drops the entry at the back, the least recently touched one.
\<close>

theorem recency_tracker_window:
  assumes "ws = foldl addSkippedSong [] ts" and "wa = foldl addRecentSong [] ts"
  shows "(length ws \<le> 10 \<and> distinct ws \<and> (ts \<noteq> [] \<longrightarrow> hd ws = last ts)
          \<and> ws = take 10 (rev (remdups ts))
          \<and> (\<forall>x. x \<in> set ws \<longrightarrow> addSkippedSong ws x = x # remove1 x ws)
          \<and> (\<forall>x. x \<notin> set ws \<and> length ws < 10 \<longrightarrow> addSkippedSong ws x = x # ws)
          \<and> (\<forall>x. x \<notin> set ws \<and> length ws = 10 \<longrightarrow> addSkippedSong ws x = x # butlast ws))
       \<and> (length wa \<le> 15 \<and> distinct wa \<and> (ts \<noteq> [] \<longrightarrow> hd wa = last ts)
          \<and> wa = take 15 (rev (remdups ts))
          \<and> (\<forall>x. x \<in> set wa \<longrightarrow> addRecentSong wa x = x # remove1 x wa)
          \<and> (\<forall>x. x \<notin> set wa \<and> length wa < 15 \<longrightarrow> addRecentSong wa x = x # wa)
          \<and> (\<forall>x. x \<notin> set wa \<and> length wa = 15 \<longrightarrow> addRecentSong wa x = x # butlast wa))"
proof -
  have s: "ws = foldl (touch 10) [] ts"
    using assms(1) by (simp add: addSkippedSong_touch MAX_SKIPPED_def)
  have a: "wa = foldl (touch 15) [] ts"
    using assms(2) by (simp add: addRecentSong_touch MAX_RECENT_def)
  have p10: "0 < (10::nat)" and p15: "0 < (15::nat)" by simp_all
  show ?thesis
    unfolding addSkippedSong_touch addRecentSong_touch MAX_SKIPPED_def MAX_RECENT_def
    by (rule conjI [OF window_properties [OF p10 s] window_properties [OF p15 a]])
qed

theorem recency_tracker_window_witness:
  "foldl addSkippedSong [] [1, 2, 3, 4, 5, 6, 7, 8, 9, 10, 11, 3, 12] =
     [12, 3, 11, 10, 9, 8, 7, 6, 5, 4]
   \<and> addSkippedSong [12, 3, 11, 10, 9, 8, 7, 6, 5, 4] 13 = [13, 12, 3, 11, 10, 9, 8, 7, 6, 5]
   \<and> addSkippedSong [12, 3, 11, 10, 9, 8, 7, 6, 5, 4] 9 = [9, 12, 3, 11, 10, 8, 7, 6, 5, 4]
   \<and> foldl addRecentSong [] [1, 2, 3, 4, 5, 6, 7, 8, 9, 10, 11, 3, 12] =
     [12, 3, 11, 10, 9, 8, 7, 6, 5, 4, 2, 1]
   \<and> addRecentSong [12, 3, 11, 10, 9, 8, 7, 6, 5, 4, 2, 1] 13 =
     [13, 12, 3, 11, 10, 9, 8, 7, 6, 5, 4, 2, 1]"
proof -
  let ?ts = "[1, 2, 3, 4, 5, 6, 7, 8, 9, 10, 11, 3, 12] :: addr list"
  note t = recency_tracker_window [of "foldl addSkippedSong [] ?ts" ?ts
      "foldl addRecentSong [] ?ts", OF refl refl]
  have ws: "foldl addSkippedSong [] ?ts = [12, 3, 11, 10, 9, 8, 7, 6, 5, 4]"
    using t by simp
  have wa: "foldl addRecentSong [] ?ts = [12, 3, 11, 10, 9, 8, 7, 6, 5, 4, 2, 1]"
    using t by simp
  have "addSkippedSong [12, 3, 11, 10, 9, 8, 7, 6, 5, 4] 13 = [13, 12, 3, 11, 10, 9, 8, 7, 6, 5]"
    using t unfolding ws by simp
  moreover have "addSkippedSong [12, 3, 11, 10, 9, 8, 7, 6, 5, 4] 9 = [9, 12, 3, 11, 10, 8, 7, 6, 5, 4]"
    using t unfolding ws by simp
  moreover have "addRecentSong [12, 3, 11, 10, 9, 8, 7, 6, 5, 4, 2, 1] 13 =
     [13, 12, 3, 11, 10, 9, 8, 7, 6, 5, 4, 2, 1]"
    using t unfolding wa by simp
  ultimately show ?thesis using ws wa by simp
qed

section \<open>Auto-replay selection\<close>

lemma calming_loop_eq:
  "\<forall>sp \<in> set songs. h sp \<noteq> None \<Longrightarrow>
   calming_loop h pc skip acc songs
     = Some (acc @ map (candidate h pc) (filter (qualifies h skip) songs))"
proof (induction songs arbitrary: acc)
  case Nil
  then show ?case by simp
next
  case (Cons sp songs)
  from Cons.prems obtain s where s: "h sp = Some s" by auto
  from Cons.prems have rest: "\<forall>sp \<in> set songs. h sp \<noteq> None" by simp
  show ?case
    by (simp add: s Cons.IH [OF rest] qualifies_def candidate_def plays_def isRecentlySkipped_iff Let_def)
qed

lemma set_insert_sorted: "set (insert_sorted cmp x ys) = insert x (set ys)"
  by (induction ys) auto

lemma length_insert_sorted: "length (insert_sorted cmp x ys) = Suc (length ys)"
  by (induction ys) auto

lemma set_std_sort: "set (std_sort cmp xs) = set xs"
  by (induction xs) (auto simp: std_sort_def set_insert_sorted)

lemma length_std_sort: "length (std_sort cmp xs) = length xs"
  by (induction xs) (auto simp: std_sort_def length_insert_sorted)

lemma ranks_before_iff:
  "ranks_before a b = (fst a > fst b \<or> (fst a = fst b \<and> snd a \<ge> snd b))"
  by (auto simp: ranks_before_def pair_greater_def pair_less_def)

lemma ranks_before_trans: "ranks_before a b \<Longrightarrow> ranks_before b c \<Longrightarrow> ranks_before a c"
  by (auto simp: ranks_before_iff)

lemma pair_greater_ranks: "pair_greater a b \<Longrightarrow> ranks_before a b"
  by (auto simp: ranks_before_iff pair_greater_def pair_less_def)

lemma not_pair_greater_ranks: "\<not> pair_greater a b \<Longrightarrow> ranks_before b a"
  by (simp add: ranks_before_def)

lemma sorted_insert_sorted:
  "sorted_wrt ranks_before ys \<Longrightarrow> sorted_wrt ranks_before (insert_sorted pair_greater x ys)"
proof (induction ys)
  case Nil
  then show ?case by simp
next
  case (Cons y ys)
  show ?case
  proof (cases "pair_greater y x")
    case True
    with Cons show ?thesis
      by (auto simp: set_insert_sorted pair_greater_ranks)
  next
    case False
    then have xy: "ranks_before x y" by (rule not_pair_greater_ranks)
    with Cons.prems have "\<forall>z \<in> set ys. ranks_before x z"
      by (auto intro: ranks_before_trans)
    with False xy Cons.prems show ?thesis by simp
  qed
qed

lemma sorted_std_sort: "sorted_wrt ranks_before (std_sort pair_greater xs)"
  by (induction xs) (auto simp: std_sort_def sorted_insert_sorted)

lemma top3_eq: "map (\<lambda>i. snd (xs ! i)) [0 ..< min 3 (length xs)] = map snd (take 3 xs)"
  by (rule nth_equalityI) auto

lemma getTop3CalmingSongs_eq:
  assumes "\<forall>sp \<in> set allSongs. h sp \<noteq> None"
  shows "getTop3CalmingSongs h allSongs pc skip
     = Some (map snd (take 3 (std_sort pair_greater
               (map (candidate h pc) (filter (qualifies h skip) allSongs)))))"
proof -
  let ?cs = "map (candidate h pc) (filter (qualifies h skip) allSongs)"
  have loop: "calming_loop h pc skip [] allSongs = Some ?cs"
    using calming_loop_eq [OF assms, of pc skip "[]"] by simp
  show ?thesis
  proof (cases "?cs = []")
    case True
    then show ?thesis by (simp add: getTop3CalmingSongs_def loop std_sort_def)
  next
    case False
    then show ?thesis by (simp add: getTop3CalmingSongs_def loop Let_def top3_eq)
  qed
qed


text \<open>
  C2: when every pointer in \<open>allSongs\<close> points to an allocated song, \<open>getTop3CalmingSongs\<close>
  returns a sequence of at most 3 songs; each of them is in \<open>allSongs\<close>, is not in the skip
  tracker's window, and has a calming genre; when no song of \<open>allSongs\<close> is calming and
  outside the window, the result is the empty sequence.
\<close>

theorem top_calming_filter:
  assumes "\<forall>sp \<in> set allSongs. h sp \<noteq> None"
  shows "\<exists>res. getTop3CalmingSongs h allSongs pc skip = Some res
           \<and> length res \<le> 3
           \<and> (\<forall>r \<in> set res. r \<in> set allSongs \<and> r \<notin> set skip \<and> \<not> isRecentlySkipped skip r
                  \<and> (\<exists>s. h r = Some s \<and> isCalming (genre s)))
           \<and> ((\<forall>sp \<in> set allSongs. \<forall>s. h sp = Some s \<longrightarrow> \<not> isCalming (genre s) \<or> sp \<in> set skip)
                  \<longrightarrow> res = [])"
proof -
  let ?cs = "map (candidate h pc) (filter (qualifies h skip) allSongs)"
  let ?res = "map snd (take 3 (std_sort pair_greater ?cs))"
  have res: "getTop3CalmingSongs h allSongs pc skip = Some ?res"
    by (rule getTop3CalmingSongs_eq [OF assms])
  have len: "length ?res \<le> 3" by simp
  have sub: "set ?res \<subseteq> snd ` set (std_sort pair_greater ?cs)"
    by (auto dest: in_set_takeD)
  have mem: "r \<in> set allSongs \<and> r \<notin> set skip \<and> \<not> isRecentlySkipped skip r
             \<and> (\<exists>s. h r = Some s \<and> isCalming (genre s))" if "r \<in> set ?res" for r
  proof -
    from that sub have "r \<in> snd ` set ?cs" by (auto simp: set_std_sort)
    then have "r \<in> set allSongs" and "qualifies h skip r"
      by (auto simp: candidate_def)
    then show ?thesis
      by (auto simp: qualifies_def isRecentlySkipped_iff split: option.splits)
  qed
  have none: "?res = []"
    if "\<forall>sp \<in> set allSongs. \<forall>s. h sp = Some s \<longrightarrow> \<not> isCalming (genre s) \<or> sp \<in> set skip"
  proof -
    from that have "filter (qualifies h skip) allSongs = []"
      by (auto simp: filter_empty_conv qualifies_def split: option.splits)
    then show ?thesis by (simp add: std_sort_def)
  qed
  from res len mem none show ?thesis by blast
qed

theorem top_calming_filter_witness:
  "getTop3CalmingSongs
       [1 \<mapsto> \<lparr>title = ''Rain'', artist = ''Artist1'', genre = ''Lo-Fi'', duration = 200,
               prev = None, next = Some 2\<rparr>,
        2 \<mapsto> \<lparr>title = ''Noise'', artist = ''Artist2'', genre = ''Rock'', duration = 150,
               prev = Some 1, next = Some 3\<rparr>,
        3 \<mapsto> \<lparr>title = ''Dusk'', artist = ''Artist3'', genre = ''JAZZ'', duration = 180,
               prev = Some 2, next = None\<rparr>]
       [1, 2, 3] [''Rain'' \<mapsto> 3, ''Noise'' \<mapsto> 5, ''Dusk'' \<mapsto> 9] [3] = Some [1]
   \<and> \<not> isRecentlySkipped [3] 1"
proof -
  let ?h = "[1 \<mapsto> \<lparr>title = ''Rain'', artist = ''Artist1'', genre = ''Lo-Fi'', duration = 200,
               prev = None, next = Some 2\<rparr>,
        2 \<mapsto> \<lparr>title = ''Noise'', artist = ''Artist2'', genre = ''Rock'', duration = 150,
               prev = Some 1, next = Some 3\<rparr>,
        3 \<mapsto> \<lparr>title = ''Dusk'', artist = ''Artist3'', genre = ''JAZZ'', duration = 180,
               prev = Some 2, next = None\<rparr>] :: heap"
  let ?pc = "[''Rain'' \<mapsto> 3, ''Noise'' \<mapsto> 5, ''Dusk'' \<mapsto> 9] :: string \<Rightarrow> int option"
  have alloc: "\<forall>sp \<in> set [1, 2, 3]. ?h sp \<noteq> None" by simp
  have val: "getTop3CalmingSongs ?h [1, 2, 3] ?pc [3] = Some [1]" by code_simp
  from top_calming_filter [OF alloc, of ?pc "[3]"]
  obtain res where res: "getTop3CalmingSongs ?h [1, 2, 3] ?pc [3] = Some res"
    and sel: "\<forall>r \<in> set res. \<not> isRecentlySkipped [3] r"
    by blast
  from res val have "res = [1]" by simp
  with sel have "\<not> isRecentlySkipped [3] 1" by simp
  with val show ?thesis by blast
qed

text \<open>
  C3, as the specification states it, fails on the code: the songs at addresses 1 and 2 are
  both calming, both outside the skip window and both played 4 times; the song at 1 comes first
  in the input, and the result lists the song at 2 before it.
\<close>

theorem top_calming_tie_counterexample:
  "getTop3CalmingSongs
     [1 \<mapsto> \<lparr>title = ''A'', artist = ''X'', genre = ''Jazz'', duration = 100,
             prev = None, next = Some 2\<rparr>,
      2 \<mapsto> \<lparr>title = ''B'', artist = ''Y'', genre = ''Jazz'', duration = 100,
             prev = Some 1, next = None\<rparr>]
     [1, 2] [''A'' \<mapsto> 4, ''B'' \<mapsto> 4] [] = Some [2, 1]
   \<and> isCalming ''Jazz''
   \<and> play_count [''A'' \<mapsto> 4, ''B'' \<mapsto> 4] ''A'' = play_count [''A'' \<mapsto> 4, ''B'' \<mapsto> 4] ''B''"
  by code_simp

text \<open>
  C3 (amended): \<open>getTop3CalmingSongs\<close> ranks the candidates by play count, descending, and
  among candidates with equal play count by the value of the song pointer, descending (the
  position in the input list plays no role): in the returned sequence an earlier song has a
  greater play count than a later one, or the same play count and an address that is not
  smaller; and every candidate that is left out is ranked strictly below each of the three
  songs returned.
\<close>

theorem top_calming_ranking:
  assumes "\<forall>sp \<in> set allSongs. h sp \<noteq> None"
  shows "\<exists>res. getTop3CalmingSongs h allSongs pc skip = Some res
           \<and> (\<forall>i j. i < j \<and> j < length res \<longrightarrow>
                  plays h pc (res ! i) > plays h pc (res ! j)
                  \<or> (plays h pc (res ! i) = plays h pc (res ! j) \<and> res ! i \<ge> res ! j))
           \<and> (\<forall>c \<in> set allSongs. qualifies h skip c \<and> c \<notin> set res \<longrightarrow>
                  length res = 3
                  \<and> (\<forall>r \<in> set res. plays h pc r > plays h pc c
                                     \<or> (plays h pc r = plays h pc c \<and> r > c)))"
proof -
  let ?cs = "map (candidate h pc) (filter (qualifies h skip) allSongs)"
  let ?sorted = "std_sort pair_greater ?cs"
  let ?res = "map snd (take 3 ?sorted)"
  have res: "getTop3CalmingSongs h allSongs pc skip = Some ?res"
    by (rule getTop3CalmingSongs_eq [OF assms])
  have cand: "p = candidate h pc (snd p)" if "p \<in> set ?sorted" for p
    using that by (auto simp: set_std_sort candidate_def)
  have sorted: "sorted_wrt ranks_before ?sorted" by (rule sorted_std_sort)
  have order: "plays h pc (?res ! i) > plays h pc (?res ! j)
                  \<or> (plays h pc (?res ! i) = plays h pc (?res ! j) \<and> ?res ! i \<ge> ?res ! j)"
    if "i < j" "j < length ?res" for i j
  proof -
    from that have j: "j < length ?sorted" and j3: "j < 3" by simp_all
    with that have i: "i < length ?sorted" and i3: "i < 3" by simp_all
    from sorted \<open>i < j\<close> j have rb: "ranks_before (?sorted ! i) (?sorted ! j)"
      by (simp add: sorted_wrt_iff_nth_less)
    have ri: "?res ! i = snd (?sorted ! i)" and rj: "?res ! j = snd (?sorted ! j)"
      using i i3 j j3 by simp_all
    have "?sorted ! i \<in> set ?sorted" using i by (rule nth_mem)
    then have ci: "?sorted ! i = candidate h pc (?res ! i)"
      by (subst ri) (rule cand)
    have "?sorted ! j \<in> set ?sorted" using j by (rule nth_mem)
    then have cj: "?sorted ! j = candidate h pc (?res ! j)"
      by (subst rj) (rule cand)
    from rb have "ranks_before (candidate h pc (?res ! i)) (candidate h pc (?res ! j))"
      by (simp only: ci [symmetric] cj [symmetric])
    then show ?thesis by (simp add: ranks_before_iff candidate_def)
  qed
  have out: "length ?res = 3
             \<and> (\<forall>r \<in> set ?res. plays h pc r > plays h pc c \<or> (plays h pc r = plays h pc c \<and> r > c))"
    if c: "c \<in> set allSongs" "qualifies h skip c" "c \<notin> set ?res" for c
  proof -
    from c have "candidate h pc c \<in> set ?sorted" by (simp add: set_std_sort)
    then have "candidate h pc c \<in> set (take 3 ?sorted) \<union> set (drop 3 ?sorted)"
      by (metis append_take_drop_id set_append)
    moreover from c(3) have "candidate h pc c \<notin> set (take 3 ?sorted)"
      by (force simp: candidate_def)
    ultimately have dr: "candidate h pc c \<in> set (drop 3 ?sorted)" by simp
    then have "drop 3 ?sorted \<noteq> []" by auto
    then have len: "length ?res = 3" by simp
    from sorted have "sorted_wrt ranks_before (take 3 ?sorted @ drop 3 ?sorted)" by simp
    then have all: "\<forall>a \<in> set (take 3 ?sorted). \<forall>b \<in> set (drop 3 ?sorted). ranks_before a b"
      unfolding sorted_wrt_append by blast
    have "plays h pc r > plays h pc c \<or> (plays h pc r = plays h pc c \<and> r > c)"
      if r: "r \<in> set ?res" for r
    proof -
      from r obtain p where p: "p \<in> set (take 3 ?sorted)" "r = snd p" by auto
      then have "p \<in> set ?sorted" by (auto dest: in_set_takeD)
      from cand [OF this] p have pr: "p = candidate h pc r" by simp
      from all p(1) dr have "ranks_before p (candidate h pc c)" by blast
      moreover from r c(3) have "r \<noteq> c" by auto
      ultimately show ?thesis by (auto simp: pr ranks_before_iff candidate_def)
    qed
    with len show ?thesis by blast
  qed
  from res order out show ?thesis by blast
qed


theorem top_calming_ranking_witness:
  "getTop3CalmingSongs
       [1 \<mapsto> \<lparr>title = ''A'', artist = ''X'', genre = ''Jazz'', duration = 100,
               prev = None, next = Some 2\<rparr>,
        2 \<mapsto> \<lparr>title = ''B'', artist = ''X'', genre = ''Chill'', duration = 100,
               prev = Some 1, next = Some 3\<rparr>,
        3 \<mapsto> \<lparr>title = ''C'', artist = ''X'', genre = ''ambient'', duration = 100,
               prev = Some 2, next = Some 4\<rparr>,
        4 \<mapsto> \<lparr>title = ''D'', artist = ''X'', genre = ''Lofi'', duration = 100,
               prev = Some 3, next = None\<rparr>]
       [1, 2, 3, 4] [''A'' \<mapsto> 4, ''B'' \<mapsto> 4, ''C'' \<mapsto> 7, ''D'' \<mapsto> 1] [] = Some [3, 2, 1]
   \<and> (plays
       [1 \<mapsto> \<lparr>title = ''A'', artist = ''X'', genre = ''Jazz'', duration = 100,
               prev = None, next = Some 2\<rparr>,
        2 \<mapsto> \<lparr>title = ''B'', artist = ''X'', genre = ''Chill'', duration = 100,
               prev = Some 1, next = Some 3\<rparr>,
        3 \<mapsto> \<lparr>title = ''C'', artist = ''X'', genre = ''ambient'', duration = 100,
               prev = Some 2, next = Some 4\<rparr>,
        4 \<mapsto> \<lparr>title = ''D'', artist = ''X'', genre = ''Lofi'', duration = 100,
               prev = Some 3, next = None\<rparr>]
       [''A'' \<mapsto> 4, ''B'' \<mapsto> 4, ''C'' \<mapsto> 7, ''D'' \<mapsto> 1] 2
     = plays
       [1 \<mapsto> \<lparr>title = ''A'', artist = ''X'', genre = ''Jazz'', duration = 100,
               prev = None, next = Some 2\<rparr>,
        2 \<mapsto> \<lparr>title = ''B'', artist = ''X'', genre = ''Chill'', duration = 100,
               prev = Some 1, next = Some 3\<rparr>,
        3 \<mapsto> \<lparr>title = ''C'', artist = ''X'', genre = ''ambient'', duration = 100,
               prev = Some 2, next = Some 4\<rparr>,
        4 \<mapsto> \<lparr>title = ''D'', artist = ''X'', genre = ''Lofi'', duration = 100,
               prev = Some 3, next = None\<rparr>]
       [''A'' \<mapsto> 4, ''B'' \<mapsto> 4, ''C'' \<mapsto> 7, ''D'' \<mapsto> 1] 1)"
proof -
  let ?h = "[1 \<mapsto> \<lparr>title = ''A'', artist = ''X'', genre = ''Jazz'', duration = 100,
               prev = None, next = Some 2\<rparr>,
        2 \<mapsto> \<lparr>title = ''B'', artist = ''X'', genre = ''Chill'', duration = 100,
               prev = Some 1, next = Some 3\<rparr>,
        3 \<mapsto> \<lparr>title = ''C'', artist = ''X'', genre = ''ambient'', duration = 100,
               prev = Some 2, next = Some 4\<rparr>,
        4 \<mapsto> \<lparr>title = ''D'', artist = ''X'', genre = ''Lofi'', duration = 100,
               prev = Some 3, next = None\<rparr>] :: heap"
  let ?pc = "[''A'' \<mapsto> 4, ''B'' \<mapsto> 4, ''C'' \<mapsto> 7, ''D'' \<mapsto> 1] :: string \<Rightarrow> int option"
  have alloc: "\<forall>sp \<in> set [1, 2, 3, 4]. ?h sp \<noteq> None" by simp
  have val: "getTop3CalmingSongs ?h [1, 2, 3, 4] ?pc [] = Some [3, 2, 1]" by code_simp
  from top_calming_ranking [OF alloc, of ?pc "[]"]
  obtain res where res: "getTop3CalmingSongs ?h [1, 2, 3, 4] ?pc [] = Some res"
    and ord: "\<forall>i j. i < j \<and> j < length res \<longrightarrow>
                  plays ?h ?pc (res ! i) > plays ?h ?pc (res ! j)
                  \<or> (plays ?h ?pc (res ! i) = plays ?h ?pc (res ! j) \<and> res ! i \<ge> res ! j)"
    by blast
  from res val have r: "res = [3, 2, 1]" by simp
  from ord have "(1::nat) < 2 \<and> 2 < length res \<longrightarrow>
                  plays ?h ?pc (res ! 1) > plays ?h ?pc (res ! 2)
                  \<or> (plays ?h ?pc (res ! 1) = plays ?h ?pc (res ! 2) \<and> res ! 1 \<ge> res ! 2)"
    by blast
  then have ge: "plays ?h ?pc 2 > plays ?h ?pc 1 \<or> plays ?h ?pc 2 = plays ?h ?pc 1"
    unfolding r by auto
  have "\<not> plays ?h ?pc 2 > plays ?h ?pc 1" by (simp add: plays_def play_count_def)
  with ge have "plays ?h ?pc 2 = plays ?h ?pc 1" by blast
  with val show ?thesis by blast
qed

text \<open>
  The order \<open>std::sort\<close> establishes with this comparison determines the result: every
  arrangement of the same pairs that is sorted by it is the one \<open>std_sort\<close> computes.
\<close>

lemma mset_insert_sorted: "mset (insert_sorted cmp x ys) = add_mset x (mset ys)"
  by (induction ys) auto

lemma mset_std_sort: "mset (std_sort cmp xs) = mset xs"
  by (induction xs) (auto simp: std_sort_def mset_insert_sorted)

lemma ranks_before_antisym: "ranks_before a b \<Longrightarrow> ranks_before b a \<Longrightarrow> a = b"
  by (auto simp: ranks_before_iff intro: prod_eqI)

lemma sorted_ranks_unique:
  "sorted_wrt ranks_before xs \<Longrightarrow> sorted_wrt ranks_before ys \<Longrightarrow> mset xs = mset ys \<Longrightarrow> xs = ys"
proof (induction xs arbitrary: ys)
  case Nil
  then show ?case by simp
next
  case (Cons x xs)
  from Cons.prems(3) obtain y ys' where ys: "ys = y # ys'" by (cases ys) auto
  have "x = y"
  proof (rule ccontr)
    assume ne: "x \<noteq> y"
    from Cons.prems(3) have "x \<in> set ys" by (metis list.set_intros(1) mset_eq_setD)
    with ne have "x \<in> set ys'" by (simp add: ys)
    with Cons.prems(2) have yx: "ranks_before y x" by (simp add: ys)
    from Cons.prems(3) have "y \<in> set (x # xs)" by (metis list.set_intros(1) mset_eq_setD ys)
    with ne have "y \<in> set xs" by simp
    with Cons.prems(1) have "ranks_before x y" by simp
    with yx ne show False by (auto dest: ranks_before_antisym)
  qed
  moreover from this Cons.prems have "xs = ys'"
    by (intro Cons.IH) (simp_all add: ys)
  ultimately show ?case by (simp add: ys)
qed

lemma std_sort_unique:
  "sorted_wrt ranks_before ys \<Longrightarrow> mset ys = mset xs \<Longrightarrow> ys = std_sort pair_greater xs"
  by (rule sorted_ranks_unique) (simp_all add: sorted_std_sort mset_std_sort)

section \<open>Playlists in the store\<close>

lemma get_next_eq: "(get_next h a = Some n) = (\<exists>s. h a = Some s \<and> next s = n)"
  by (auto simp: get_next_def)

lemma get_prev_eq: "(get_prev h a = Some n) = (\<exists>s. h a = Some s \<and> prev s = n)"
  by (auto simp: get_prev_def)

lemma path_Cons_iff:
  "path g p (a # as) q = (p = Some a \<and> (\<exists>n. g a = Some n \<and> path g n as q))"
  by (auto split: option.splits)

lemma get_all_songs_loop_path:
  "path (get_next h) p xs None \<Longrightarrow> get_all_songs_loop h acc p = Some (acc @ xs)"
proof (induction xs arbitrary: p acc)
  case Nil
  then show ?case by (simp add: get_all_songs_loop.simps)
next
  case (Cons a xs)
  from Cons.prems obtain n where p: "p = Some a" and n: "get_next h a = Some n"
    and rest: "path (get_next h) n xs None"
    unfolding path_Cons_iff by blast
  from n obtain s where s: "h a = Some s" and ns: "next s = n"
    unfolding get_next_eq by blast
  from Cons.IH [OF rest, of "acc @ [a]"] show ?case
    by (subst get_all_songs_loop.simps) (simp add: p s ns)
qed

lemma get_all_songs_playlist: "is_playlist h pl xs \<Longrightarrow> get_all_songs h pl = Some xs"
  using get_all_songs_loop_path [of h "head pl" xs "[]"]
  by (simp add: is_playlist_def get_all_songs_def)

lemma path_allocated: "path g p xs q \<Longrightarrow> a \<in> set xs \<Longrightarrow> \<exists>n. g a = Some n"
  by (induction xs arbitrary: p) (auto split: option.splits)

lemma playlist_allocated:
  assumes "is_playlist h pl xs" and "a \<in> set xs"
  shows "\<exists>s. h a = Some s"
proof -
  from assms have "\<exists>n. get_next h a = Some n"
    unfolding is_playlist_def by (blast dest: path_allocated)
  then show ?thesis unfolding get_next_eq by blast
qed

section \<open>Playback position\<close>

text \<open>
  C9, as the specification states it, fails on the code.  With one song in the catalog, the
  first \<open>playNext\<close> of a new player plays it; the second one finds the end, returns false and
  reports it, and leaves the player as it was, with the playing flag still set: there is no
  transition to a stopped state.
\<close>

theorem playNext_end_counterexample:
  "playNext [1 \<mapsto> \<lparr>title = ''A'', artist = ''X'', genre = ''Jazz'', duration = 100,
                    prev = None, next = None\<rparr>]
            \<lparr>head = Some 1, tail = Some 1\<rparr> new_player [] Map.empty
     = Some (True, Next_song, \<lparr>currentIndex = 0, isPlaying = True, currentSong = Some 1\<rparr>,
             [1], [''A'' \<mapsto> 1])
   \<and> playNext [1 \<mapsto> \<lparr>title = ''A'', artist = ''X'', genre = ''Jazz'', duration = 100,
                      prev = None, next = None\<rparr>]
              \<lparr>head = Some 1, tail = Some 1\<rparr>
              \<lparr>currentIndex = 0, isPlaying = True, currentSong = Some 1\<rparr> [1] [''A'' \<mapsto> 1]
     = Some (False, Reached_end_of_playlist,
             \<lparr>currentIndex = 0, isPlaying = True, currentSong = Some 1\<rparr>, [1], [''A'' \<mapsto> 1])"
proof -
  let ?h = "[1 \<mapsto> \<lparr>title = ''A'', artist = ''X'', genre = ''Jazz'', duration = 100,
                    prev = None, next = None\<rparr>] :: heap"
  have "is_playlist ?h \<lparr>head = Some 1, tail = Some 1\<rparr> [1]"
    by (simp add: is_playlist_def get_next_def get_prev_def)
  then have "get_all_songs ?h \<lparr>head = Some 1, tail = Some 1\<rparr> = Some [1]"
    by (rule get_all_songs_playlist)
  then show ?thesis
    by (simp add: playNext_def new_player_def add_def increment_def checked_def
                  INT_MAX_def INT_MIN_def)
qed

lemma checked_in_range: "INT_MIN \<le> x \<Longrightarrow> x \<le> INT_MAX \<Longrightarrow> checked x = Some x"
  by (simp add: checked_def)

lemma INT_MIN_negative: "INT_MIN \<le> - 1"
  by (simp add: INT_MIN_def)

text \<open>
  C9 (amended): for a non-empty catalog of length \<open>L\<close> and a player whose index is below
  \<open>INT_MAX\<close>, \<open>playNext\<close> does the following.  When \<open>index + 1 < L\<close> (and the index is at least
  \<open>-1\<close>, as it always is) and the play count of the song at \<open>index + 1\<close> is an \<open>int\<close> below
  \<open>INT_MAX\<close>, it returns true, advances the index by exactly 1, makes the song at the new
  index the current song, sets the playing flag, pushes that song on the history and
  increments its play count.  When \<open>index + 1 < L\<close> does not hold, it returns false, reports
  that the end is reached, and leaves the player (index, current song and playing flag), the
  history and the play counts as they are.
\<close>

theorem playNext_transitions:
  assumes "is_playlist h pl songs" and "songs \<noteq> []" and "currentIndex player < INT_MAX"
  shows "(- 1 \<le> currentIndex player \<and> currentIndex player + 1 < int (length songs) \<longrightarrow>
            (\<exists>s. h (songs ! nat (currentIndex player + 1)) = Some s
               \<and> (INT_MIN \<le> play_count pc (title s) \<and> play_count pc (title s) < INT_MAX \<longrightarrow>
                    playNext h pl player ph pc =
                      Some (True, Next_song,
                            player\<lparr>currentIndex := currentIndex player + 1,
                                   currentSong := Some (songs ! nat (currentIndex player + 1)),
                                   isPlaying := True\<rparr>,
                            songs ! nat (currentIndex player + 1) # ph,
                            pc(title s \<mapsto> play_count pc (title s) + 1)))))
       \<and> (\<not> currentIndex player + 1 < int (length songs) \<longrightarrow>
            playNext h pl player ph pc = Some (False, Reached_end_of_playlist, player, ph, pc))"
proof -
  have songs: "get_all_songs h pl = Some songs"
    using assms(1) by (rule get_all_songs_playlist)
  have adv: "\<exists>s. h (songs ! nat (currentIndex player + 1)) = Some s
               \<and> (INT_MIN \<le> play_count pc (title s) \<and> play_count pc (title s) < INT_MAX \<longrightarrow>
                    playNext h pl player ph pc =
                      Some (True, Next_song,
                            player\<lparr>currentIndex := currentIndex player + 1,
                                   currentSong := Some (songs ! nat (currentIndex player + 1)),
                                   isPlaying := True\<rparr>,
                            songs ! nat (currentIndex player + 1) # ph,
                            pc(title s \<mapsto> play_count pc (title s) + 1)))"
    if lo: "- 1 \<le> currentIndex player" and hi: "currentIndex player + 1 < int (length songs)"
  proof -
    from lo hi have "nat (currentIndex player + 1) < length songs" by simp
    then have "songs ! nat (currentIndex player + 1) \<in> set songs" by (rule nth_mem)
    with assms(1) obtain s where s: "h (songs ! nat (currentIndex player + 1)) = Some s"
      by (blast dest: playlist_allocated)
    from lo INT_MIN_negative have "INT_MIN \<le> currentIndex player + 1" by simp
    moreover from assms(3) have "currentIndex player + 1 \<le> INT_MAX" by simp
    ultimately have idx: "checked (currentIndex player + 1) = Some (currentIndex player + 1)"
      by (rule checked_in_range)
    have "playNext h pl player ph pc =
                      Some (True, Next_song,
                            player\<lparr>currentIndex := currentIndex player + 1,
                                   currentSong := Some (songs ! nat (currentIndex player + 1)),
                                   isPlaying := True\<rparr>,
                            songs ! nat (currentIndex player + 1) # ph,
                            pc(title s \<mapsto> play_count pc (title s) + 1))"
      if c: "INT_MIN \<le> play_count pc (title s)" "play_count pc (title s) < INT_MAX"
    proof -
      from c have "checked (play_count pc (title s) + 1) = Some (play_count pc (title s) + 1)"
        by (intro checked_in_range) simp_all
      then have "increment pc (title s) = Some (pc(title s \<mapsto> play_count pc (title s) + 1))"
        by (simp add: increment_def play_count_def split: option.splits)
      with lo hi assms(2) show ?thesis
        by (simp add: playNext_def songs idx s Let_def add_def)
    qed
    with s show ?thesis by blast
  qed
  have stay: "playNext h pl player ph pc = Some (False, Reached_end_of_playlist, player, ph, pc)"
    if e: "\<not> currentIndex player + 1 < int (length songs)"
  proof -
    from e have "0 \<le> currentIndex player + 1" by simp
    with INT_MIN_negative have "INT_MIN \<le> currentIndex player + 1" by simp
    moreover from assms(3) have "currentIndex player + 1 \<le> INT_MAX" by simp
    ultimately have "checked (currentIndex player + 1) = Some (currentIndex player + 1)"
      by (rule checked_in_range)
    with e assms(2) show ?thesis by (simp add: playNext_def songs)
  qed
  from adv stay show ?thesis by blast
qed

theorem playNext_transitions_witness:
  "playNext [1 \<mapsto> \<lparr>title = ''A'', artist = ''X'', genre = ''Jazz'', duration = 100,
                    prev = None, next = Some 2\<rparr>,
             2 \<mapsto> \<lparr>title = ''B'', artist = ''Y'', genre = ''Rock'', duration = 90,
                    prev = Some 1, next = None\<rparr>]
            \<lparr>head = Some 1, tail = Some 2\<rparr>
            \<lparr>currentIndex = 0, isPlaying = True, currentSong = Some 1\<rparr> [1] [''A'' \<mapsto> 1]
     = Some (True, Next_song, \<lparr>currentIndex = 1, isPlaying = True, currentSong = Some 2\<rparr>,
             [2, 1], [''A'' \<mapsto> 1, ''B'' \<mapsto> 1])
   \<and> playNext [1 \<mapsto> \<lparr>title = ''A'', artist = ''X'', genre = ''Jazz'', duration = 100,
                      prev = None, next = Some 2\<rparr>,
               2 \<mapsto> \<lparr>title = ''B'', artist = ''Y'', genre = ''Rock'', duration = 90,
                      prev = Some 1, next = None\<rparr>]
              \<lparr>head = Some 1, tail = Some 2\<rparr>
              \<lparr>currentIndex = 1, isPlaying = True, currentSong = Some 2\<rparr> [2, 1]
              [''A'' \<mapsto> 1, ''B'' \<mapsto> 1]
     = Some (False, Reached_end_of_playlist,
             \<lparr>currentIndex = 1, isPlaying = True, currentSong = Some 2\<rparr>, [2, 1],
             [''A'' \<mapsto> 1, ''B'' \<mapsto> 1])"
proof -
  let ?h = "[1 \<mapsto> \<lparr>title = ''A'', artist = ''X'', genre = ''Jazz'', duration = 100,
                    prev = None, next = Some 2\<rparr>,
             2 \<mapsto> \<lparr>title = ''B'', artist = ''Y'', genre = ''Rock'', duration = 90,
                    prev = Some 1, next = None\<rparr>] :: heap"
  let ?pl = "\<lparr>head = Some 1, tail = Some 2\<rparr>"
  let ?p0 = "\<lparr>currentIndex = 0, isPlaying = True, currentSong = Some 1\<rparr>"
  let ?p1 = "\<lparr>currentIndex = 1, isPlaying = True, currentSong = Some 2\<rparr>"
  have wf: "is_playlist ?h ?pl [1, 2]" by (simp add: is_playlist_def get_next_def get_prev_def)
  have ne: "[1, 2::addr] \<noteq> []" by simp
  have b0: "currentIndex ?p0 < INT_MAX" and b1: "currentIndex ?p1 < INT_MAX"
    by (simp_all add: INT_MAX_def)
  from playNext_transitions [OF wf ne b0, where ph = "[1]" and pc = "[''A'' \<mapsto> 1]"]
  have a: "playNext ?h ?pl ?p0 [1] [''A'' \<mapsto> 1]
     = Some (True, Next_song, ?p1, [2, 1], [''A'' \<mapsto> 1, ''B'' \<mapsto> 1])"
    by (simp add: play_count_def INT_MAX_def INT_MIN_def)
  from playNext_transitions [OF wf ne b1, where ph = "[2, 1]"
      and pc = "[''A'' \<mapsto> 1, ''B'' \<mapsto> 1]"]
  have b: "playNext ?h ?pl ?p1 [2, 1] [''A'' \<mapsto> 1, ''B'' \<mapsto> 1]
     = Some (False, Reached_end_of_playlist, ?p1, [2, 1], [''A'' \<mapsto> 1, ''B'' \<mapsto> 1])"
    by simp
  from a b show ?thesis by (rule conjI)
qed

section \<open>Paths\<close>

lemma path_append: "path g p (xs @ ys) q = (\<exists>r. path g p xs r \<and> path g r ys q)"
  by (induction xs arbitrary: p) (auto split: option.splits)

lemma path_cong_on: "\<forall>a \<in> set xs. g' a = g a \<Longrightarrow> path g' p xs q = path g p xs q"
  by (induction xs arbitrary: p) (auto split: option.splits)

lemma path_upd_notin: "a \<notin> set xs \<Longrightarrow> path (g(a := v)) p xs q = path g p xs q"
  by (rule path_cong_on) auto

lemma path_unique: "path g p xs None \<Longrightarrow> path g p ys None \<Longrightarrow> xs = ys"
proof (induction xs arbitrary: p ys)
  case Nil
  then show ?case by (cases ys) auto
next
  case (Cons a xs)
  then show ?case by (cases ys) (auto split: option.splits)
qed

lemma path_hd_notin_tl:
  assumes "path g (Some a) (a # xs) None"
  shows "a \<notin> set xs"
proof
  assume "a \<in> set xs"
  then obtain us vs where xs: "xs = us @ a # vs" by (auto simp: in_set_conv_decomp)
  from assms have "path g (Some a) ((a # us) @ a # vs) None" by (simp add: xs)
  then obtain r where "path g r (a # vs) None" unfolding path_append by blast
  then have "path g (Some a) (a # vs) None" by (simp add: path_Cons_iff)
  with assms have "a # xs = a # vs" by (rule path_unique)
  then show False by (simp add: xs)
qed

lemma path_distinct: "path g p xs None \<Longrightarrow> distinct xs"
proof (induction xs arbitrary: p)
  case Nil
  then show ?case by simp
next
  case (Cons a xs)
  from Cons.prems have "path g (Some a) (a # xs) None" by (simp add: path_Cons_iff)
  then have "a \<notin> set xs" by (rule path_hd_notin_tl)
  moreover from Cons.prems obtain n where "path g n xs None"
    unfolding path_Cons_iff by blast
  then have "distinct xs" by (rule Cons.IH)
  ultimately show ?case by simp
qed

lemma playlist_distinct: "is_playlist h pl xs \<Longrightarrow> distinct xs"
  unfolding is_playlist_def by (blast dest: path_distinct)

section \<open>Reversal\<close>

lemma swap_links_twice: "swap_links (swap_links s) = s"
  by (simp add: swap_links_def)

lemma swap_on_twice: "swap_on A (swap_on A h) = h"
  by (rule ext) (simp add: swap_on_def option.map_comp comp_def swap_links_twice option.map_ident)

lemma get_next_swap_on: "a \<in> A \<Longrightarrow> get_next (swap_on A h) a = get_prev h a"
  by (simp add: get_next_def get_prev_def swap_on_def swap_links_def option.map_comp comp_def)

lemma get_prev_swap_on: "a \<in> A \<Longrightarrow> get_prev (swap_on A h) a = get_next h a"
  by (simp add: get_next_def get_prev_def swap_on_def swap_links_def option.map_comp comp_def)

lemma get_next_upd_other: "a \<noteq> b \<Longrightarrow> get_next (h(b := v)) a = get_next h a"
  by (simp add: get_next_def)

lemma get_prev_upd_other: "a \<noteq> b \<Longrightarrow> get_prev (h(b := v)) a = get_prev h a"
  by (simp add: get_prev_def)

lemma reverse_loop_path:
  "path (get_next h) p xs None \<Longrightarrow> reverse_loop h p = Some (swap_on (set xs) h)"
proof (induction xs arbitrary: h p)
  case Nil
  then show ?case by (simp add: reverse_loop.simps swap_on_def)
next
  case (Cons a xs)
  from Cons.prems obtain n where p: "p = Some a" and n: "get_next h a = Some n"
    and rest: "path (get_next h) n xs None"
    unfolding path_Cons_iff by blast
  from n obtain s where s: "h a = Some s" and ns: "next s = n"
    unfolding get_next_eq by blast
  from Cons.prems have "distinct (a # xs)" by (rule path_distinct)
  then have notin: "a \<notin> set xs" by simp
  let ?h1 = "h(a \<mapsto> s\<lparr>next := prev s, prev := next s\<rparr>)"
  have "\<forall>b \<in> set xs. get_next ?h1 b = get_next h b"
    using notin by (auto intro!: get_next_upd_other)
  from path_cong_on [OF this] rest have "path (get_next ?h1) n xs None" by blast
  then have "reverse_loop ?h1 n = Some (swap_on (set xs) ?h1)" by (rule Cons.IH)
  moreover have "swap_on (set xs) ?h1 = swap_on (set (a # xs)) h"
    using notin by (auto simp: swap_on_def swap_links_def s)
  ultimately show ?case
    by (subst reverse_loop.simps) (simp add: p s ns Let_def)
qed

lemma reverse_playlist_eq:
  assumes "is_playlist h pl xs"
  shows "reverse_playlist h pl = Some (swap_on (set xs) h, pl\<lparr>head := tail pl, tail := head pl\<rparr>)"
  using assms reverse_loop_path [of h "head pl" xs]
  by (simp add: reverse_playlist_def is_playlist_def)

lemma is_playlist_swap_on:
  assumes "is_playlist h pl xs"
  shows "is_playlist (swap_on (set xs) h) (pl\<lparr>head := tail pl, tail := head pl\<rparr>) (rev xs)"
proof -
  have "path (get_next (swap_on (set xs) h)) (tail pl) (rev xs) None
          = path (get_prev h) (tail pl) (rev xs) None"
    by (rule path_cong_on) (simp add: get_next_swap_on)
  moreover have "path (get_prev (swap_on (set xs) h)) (head pl) xs None
          = path (get_next h) (head pl) xs None"
    by (rule path_cong_on) (simp add: get_prev_swap_on)
  ultimately show ?thesis using assms by (simp add: is_playlist_def)
qed

text \<open>
  C5: for every well-formed catalog with the songs \<open>xs\<close> (empty or not), \<open>reverse_playlist\<close>
  returns, the catalog it leaves is well formed and lists exactly the reversal of \<open>xs\<close>, and a
  second \<open>reverse_playlist\<close> gives back the original store and anchors, so the original order.
\<close>

theorem reverse_playlist_involution:
  assumes "is_playlist h pl xs"
  shows "\<exists>h' pl'. reverse_playlist h pl = Some (h', pl')
           \<and> get_all_songs h pl = Some xs
           \<and> is_playlist h' pl' (rev xs)
           \<and> get_all_songs h' pl' = Some (rev xs)
           \<and> reverse_playlist h' pl' = Some (h, pl)"
proof -
  let ?h' = "swap_on (set xs) h"
  let ?pl' = "pl\<lparr>head := tail pl, tail := head pl\<rparr>"
  have one: "reverse_playlist h pl = Some (?h', ?pl')"
    using assms by (rule reverse_playlist_eq)
  have wf: "is_playlist ?h' ?pl' (rev xs)"
    using assms by (rule is_playlist_swap_on)
  have "reverse_playlist ?h' ?pl'
          = Some (swap_on (set (rev xs)) ?h', ?pl'\<lparr>head := tail ?pl', tail := head ?pl'\<rparr>)"
    using wf by (rule reverse_playlist_eq)
  then have two: "reverse_playlist ?h' ?pl' = Some (h, pl)"
    by (simp add: swap_on_twice)
  from one two wf get_all_songs_playlist [OF assms] get_all_songs_playlist [OF wf]
  show ?thesis by blast
qed

theorem reverse_playlist_involution_witness:
  "reverse_playlist
     [1 \<mapsto> \<lparr>title = ''A'', artist = ''X'', genre = ''Jazz'', duration = 100,
             prev = None, next = Some 2\<rparr>,
      2 \<mapsto> \<lparr>title = ''B'', artist = ''Y'', genre = ''Rock'', duration = 90,
             prev = Some 1, next = Some 3\<rparr>,
      3 \<mapsto> \<lparr>title = ''C'', artist = ''Z'', genre = ''Pop'', duration = 80,
             prev = Some 2, next = None\<rparr>]
     \<lparr>head = Some 1, tail = Some 3\<rparr>
     \<bind> (\<lambda>(h', pl'). get_all_songs h' pl') = Some [3, 2, 1]
   \<and> reverse_playlist
     [1 \<mapsto> \<lparr>title = ''A'', artist = ''X'', genre = ''Jazz'', duration = 100,
             prev = None, next = Some 2\<rparr>,
      2 \<mapsto> \<lparr>title = ''B'', artist = ''Y'', genre = ''Rock'', duration = 90,
             prev = Some 1, next = Some 3\<rparr>,
      3 \<mapsto> \<lparr>title = ''C'', artist = ''Z'', genre = ''Pop'', duration = 80,
             prev = Some 2, next = None\<rparr>]
     \<lparr>head = Some 1, tail = Some 3\<rparr>
     \<bind> (\<lambda>(h', pl'). reverse_playlist h' pl' \<bind> (\<lambda>(h'', pl''). get_all_songs h'' pl''))
       = Some [1, 2, 3]"
proof -
  let ?h = "[1 \<mapsto> \<lparr>title = ''A'', artist = ''X'', genre = ''Jazz'', duration = 100,
             prev = None, next = Some 2\<rparr>,
      2 \<mapsto> \<lparr>title = ''B'', artist = ''Y'', genre = ''Rock'', duration = 90,
             prev = Some 1, next = Some 3\<rparr>,
      3 \<mapsto> \<lparr>title = ''C'', artist = ''Z'', genre = ''Pop'', duration = 80,
             prev = Some 2, next = None\<rparr>] :: heap"
  let ?pl = "\<lparr>head = Some 1, tail = Some 3\<rparr>"
  have wf: "is_playlist ?h ?pl [1, 2, 3]"
    by (simp add: is_playlist_def get_next_def get_prev_def)
  from reverse_playlist_involution [OF wf]
  obtain h' pl' where "reverse_playlist ?h ?pl = Some (h', pl')"
    and "get_all_songs ?h ?pl = Some [1, 2, 3]"
    and "get_all_songs h' pl' = Some (rev [1, 2, 3])"
    and "reverse_playlist h' pl' = Some (?h, ?pl)"
    by blast
  then show ?thesis by simp
qed

section \<open>Taking a node out of a path and putting one in\<close>

lemma first_simps [simp]: "first [] = None" "first (x # xs) = Some x"
  by (simp_all add: first_def)

lemma first_append: "first (xs @ ys) = (if xs = [] then first ys else first xs)"
  by (cases xs) simp_all

lemma first_rev: "first (rev xs) = (if xs = [] then None else Some (last xs))"
  by (induction xs) (auto simp: first_append)

lemma path_first: "path g p xs None \<Longrightarrow> p = first xs"
  by (cases xs) auto

lemma path_snoc: "path g p (xs @ [a]) q = (path g p xs (Some a) \<and> g a = Some q)"
  by (auto simp: path_append split: option.splits)

lemma path_node:
  assumes "path g p (as @ m # bs) None"
  shows "g m = Some (first bs)"
proof -
  from assms obtain n where "g m = Some n" and "path g n bs None"
    unfolding path_append path_Cons_iff by blast
  then show ?thesis by (auto dest: path_first)
qed

lemma splice_out:
  assumes "path g p (as @ m # bs) None"
  shows "path (if as = [] then g else g(last as \<mapsto> first bs)) (first (as @ bs)) (as @ bs) None"
proof -
  from assms have dist: "distinct (as @ m # bs)" by (rule path_distinct)
  from assms obtain n where pre: "path g p as (Some m)" and m: "g m = Some n"
    and post: "path g n bs None"
    unfolding path_append path_Cons_iff by blast
  from post have n: "n = first bs" by (rule path_first)
  show ?thesis
  proof (cases as rule: rev_cases)
    case Nil
    with post n show ?thesis by simp
  next
    case (snoc as' l)
    let ?g = "g(l \<mapsto> first bs)"
    from dist have l1: "l \<notin> set as'" and l2: "l \<notin> set bs" by (simp_all add: snoc)
    from pre have "path g p as' (Some l)" by (simp add: snoc path_snoc)
    with l1 have a: "path ?g p as' (Some l)" by (simp add: path_upd_notin)
    from post n l2 have b: "path ?g (first bs) bs None" by (simp add: path_upd_notin)
    from a b have "path ?g p ((as' @ [l]) @ bs) None"
      unfolding path_append path_snoc by auto
    moreover from path_first [OF assms] have "p = first (as @ bs)"
      by (simp add: first_append snoc)
    ultimately show ?thesis by (simp add: snoc)
  qed
qed

lemma splice_in:
  assumes "path g p (us @ vs) None" and "m \<notin> set (us @ vs)"
  shows "path ((if us = [] then g else g(last us \<mapsto> Some m))(m \<mapsto> first vs))
              (first (us @ m # vs)) (us @ m # vs) None"
proof -
  from assms(1) have dist: "distinct (us @ vs)" by (rule path_distinct)
  from assms(1) obtain r where pre: "path g p us r" and post: "path g r vs None"
    unfolding path_append by blast
  from post have r: "r = first vs" by (rule path_first)
  show ?thesis
  proof (cases us rule: rev_cases)
    case Nil
    with post r assms(2) show ?thesis by (simp add: path_upd_notin)
  next
    case (snoc us' l)
    let ?g = "(g(l \<mapsto> Some m))(m \<mapsto> first vs)"
    from dist have l1: "l \<notin> set us'" and l2: "l \<notin> set vs" by (simp_all add: snoc)
    from assms(2) have m1: "m \<notin> set us'" and m2: "m \<notin> set vs" and ml: "m \<noteq> l"
      by (auto simp: snoc)
    from pre have "path g p us' (Some l)" by (simp add: snoc path_snoc)
    with l1 m1 have a: "path ?g p us' (Some l)" by (simp add: path_upd_notin)
    from post r l2 m2 have b: "path ?g (first vs) vs None" by (simp add: path_upd_notin)
    from a b ml have "path ?g p ((us' @ [l]) @ m # vs) None"
      unfolding path_append path_snoc path_Cons_iff by auto
    moreover from path_first [OF assms(1)] have "p = first (us @ m # vs)"
      by (simp add: first_append snoc)
    ultimately show ?thesis by (simp add: snoc)
  qed
qed


section \<open>Writes through a pointer\<close>

lemma get_next_None: "(get_next h a = None) = (h a = None)"
  by (simp add: get_next_def)

lemma get_prev_None: "(get_prev h a = None) = (h a = None)"
  by (simp add: get_prev_def)

lemma set_next_fields:
  assumes "h p \<noteq> None"
  obtains h' where "set_next h p v = Some h'"
    and "get_next h' = (get_next h)(p \<mapsto> v)" and "get_prev h' = get_prev h"
    and "\<And>a. (h' a = None) = (h a = None)"
proof -
  from assms obtain s where s: "h p = Some s" by auto
  let ?h' = "h(p \<mapsto> s\<lparr>next := v\<rparr>)"
  have "set_next h p v = Some ?h'" by (simp add: set_next_def s)
  moreover have "get_next ?h' = (get_next h)(p \<mapsto> v)"
    by (rule ext) (simp add: get_next_def)
  moreover have "get_prev ?h' = get_prev h"
    by (rule ext) (simp add: get_prev_def s)
  moreover have "\<And>a. (?h' a = None) = (h a = None)" by (simp add: s)
  ultimately show ?thesis by (rule that)
qed

lemma set_prev_fields:
  assumes "h p \<noteq> None"
  obtains h' where "set_prev h p v = Some h'"
    and "get_prev h' = (get_prev h)(p \<mapsto> v)" and "get_next h' = get_next h"
    and "\<And>a. (h' a = None) = (h a = None)"
proof -
  from assms obtain s where s: "h p = Some s" by auto
  let ?h' = "h(p \<mapsto> s\<lparr>prev := v\<rparr>)"
  have "set_prev h p v = Some ?h'" by (simp add: set_prev_def s)
  moreover have "get_prev ?h' = (get_prev h)(p \<mapsto> v)"
    by (rule ext) (simp add: get_prev_def)
  moreover have "get_next ?h' = get_next h"
    by (rule ext) (simp add: get_next_def s)
  moreover have "\<And>a. (?h' a = None) = (h a = None)" by (simp add: s)
  ultimately show ?thesis by (rule that)
qed

section \<open>Walking to an index\<close>

lemma node_at_simps [simp]:
  "node_at [] k = None" "node_at (x # xs) 0 = Some x" "node_at (x # xs) (Suc k) = node_at xs k"
  by (simp_all add: node_at_def)

lemma advance_path:
  "path (get_next h) p xs None \<Longrightarrow> advance h p i index = Some (node_at xs (nat (index - i)))"
proof (induction xs arbitrary: p i)
  case Nil
  then show ?case by (simp add: advance.simps)
next
  case (Cons a xs)
  from Cons.prems obtain n where p: "p = Some a" and n: "get_next h a = Some n"
    and rest: "path (get_next h) n xs None"
    unfolding path_Cons_iff by blast
  from n obtain s where s: "h a = Some s" and ns: "next s = n"
    unfolding get_next_eq by blast
  show ?case
  proof (cases "i < index")
    case True
    then have "nat (index - i) = Suc (nat (index - (i + 1)))" by simp
    with True Cons.IH [OF rest, of "i + 1"] show ?thesis
      by (subst advance.simps) (simp add: p s ns)
  next
    case False
    then show ?thesis by (subst advance.simps) (simp add: p)
  qed
qed

lemma node_at_append_Cons: "node_at (as @ m # bs) (length as) = Some m"
  by (simp add: node_at_def)

section \<open>Unlinking a node\<close>

lemma is_playlist_frame:
  assumes "is_playlist h pl xs"
    and "\<forall>a \<in> set xs. get_next h' a = get_next h a \<and> get_prev h' a = get_prev h a"
  shows "is_playlist h' pl xs"
proof -
  from assms(2) have "path (get_next h') (head pl) xs None = path (get_next h) (head pl) xs None"
    by (intro path_cong_on) simp
  moreover from assms(2)
  have "path (get_prev h') (tail pl) (rev xs) None = path (get_prev h) (tail pl) (rev xs) None"
    by (intro path_cong_on) simp
  ultimately show ?thesis using assms(1) by (simp add: is_playlist_def)
qed

lemma playlist_anchors:
  assumes "is_playlist h pl xs"
  shows "head pl = first xs" and "tail pl = first (rev xs)"
  using assms unfolding is_playlist_def by (auto dest: path_first)

lemma unlink_playlist:
  assumes wf: "is_playlist h pl (as @ m # bs)"
  obtains h' pl' where "unlink h pl m = Some (h', pl')"
    and "is_playlist h' pl' (as @ bs)"
    and "h' m = h m"
    and "\<And>a. (h' a = None) = (h a = None)"
proof -
  let ?N = "get_next h" and ?P = "get_prev h"
  from wf have pn: "path ?N (head pl) (as @ m # bs) None"
    and pp: "path ?P (tail pl) (rev bs @ m # rev as) None"
    by (simp_all add: is_playlist_def)
  from pn have dist: "distinct (as @ m # bs)" by (rule path_distinct)
  from pn have Nm: "?N m = Some (first bs)" by (rule path_node)
  from pp have Pm: "?P m = Some (first (rev as))" by (rule path_node)
  from playlist_anchors [OF wf] have hd: "head pl = first (as @ m # bs)"
    and tl: "tail pl = first (rev bs @ m # rev as)" by simp_all
  have alloc: "h a \<noteq> None" if "a \<in> set (as @ m # bs)" for a
    using playlist_allocated [OF wf that] by auto
  \<comment> \<open>\<open>if (temp->prev) temp->prev->next = temp->next;\<close>\<close>
  obtain h1 where s1: "(case first (rev as) of None \<Rightarrow> Some h | Some p \<Rightarrow> set_next h p (first bs)) = Some h1"
    and N1: "get_next h1 = (if as = [] then ?N else ?N(last as \<mapsto> first bs))"
    and P1: "get_prev h1 = ?P"
    and A1: "\<And>a. (h1 a = None) = (h a = None)"
    and D1: "h1 m = h m"
  proof (cases "as = []")
    case True
    then show ?thesis by (intro that [of h]) simp_all
  next
    case False
    then have "h (last as) \<noteq> None" by (intro alloc) simp
    then obtain h1 where "set_next h (last as) (first bs) = Some h1"
      and "get_next h1 = ?N(last as \<mapsto> first bs)" and "get_prev h1 = ?P"
      and "\<And>a. (h1 a = None) = (h a = None)"
      by (rule set_next_fields [where v = "first bs"]) blast
    moreover from False dist have "last as \<noteq> m" by (metis distinct_append disjoint_iff last_in_set list.set_intros(1))
    then have "h1 m = h m" using \<open>set_next h (last as) (first bs) = Some h1\<close>
      by (auto simp: set_next_def split: option.splits)
    ultimately show ?thesis using False by (intro that [of h1]) (simp_all add: first_rev)
  qed
  have N1m: "get_next h1 m = Some (first bs)"
    using dist Nm by (auto simp: N1)
  have P1m: "get_prev h1 m = Some (first (rev as))"
    using Pm by (simp add: P1)
  \<comment> \<open>\<open>if (temp->next) temp->next->prev = temp->prev;\<close>\<close>
  obtain h2 where s2: "(case first bs of None \<Rightarrow> Some h1 | Some n \<Rightarrow> set_prev h1 n (first (rev as))) = Some h2"
    and N2: "get_next h2 = get_next h1"
    and P2: "get_prev h2 = (if bs = [] then ?P else ?P(hd bs \<mapsto> first (rev as)))"
    and A2: "\<And>a. (h2 a = None) = (h a = None)"
    and D2: "h2 m = h m"
  proof (cases bs)
    case Nil
    then show ?thesis using P1 A1 D1 by (intro that [of h1]) simp_all
  next
    case (Cons b bs')
    then have "h b \<noteq> None" by (intro alloc) simp
    then have "h1 b \<noteq> None" by (simp add: A1)
    then obtain h2 where "set_prev h1 b (first (rev as)) = Some h2"
      and "get_prev h2 = (get_prev h1)(b \<mapsto> first (rev as))" and "get_next h2 = get_next h1"
      and "\<And>a. (h2 a = None) = (h1 a = None)"
      by (rule set_prev_fields [where v = "first (rev as)"]) blast
    moreover from Cons dist have "b \<noteq> m" by auto
    then have "h2 m = h1 m" using \<open>set_prev h1 b (first (rev as)) = Some h2\<close>
      by (auto simp: set_prev_def split: option.splits)
    ultimately show ?thesis using Cons P1 A1 D1 by (intro that [of h2]) simp_all
  qed
  have N2m: "get_next h2 m = Some (first bs)" by (simp add: N2 N1m)
  have P2m: "get_prev h2 m = Some (first (rev as))"
    using dist Pm by (auto simp: P2 neq_Nil_conv)
  let ?pl1 = "if Some m = head pl then pl\<lparr>head := first bs\<rparr> else pl"
  let ?pl2 = "if Some m = tail ?pl1 then ?pl1\<lparr>tail := first (rev as)\<rparr> else ?pl1"
  have res: "unlink h pl m = Some (h2, ?pl2)"
    by (simp add: unlink_def Nm Pm s1 N1m P1m s2 N2m P2m Let_def)
  have hm: "(Some m = head pl) = (as = [])"
    using dist by (cases as) (auto simp: hd)
  have tm: "(Some m = tail pl) = (bs = [])"
    using dist by (cases bs rule: rev_cases) (auto simp: tl first_append)
  have hd2: "head ?pl2 = first (as @ bs)"
    using dist by (cases as) (auto simp: hd)
  have tl2: "tail ?pl2 = first (rev (as @ bs))"
    using dist by (cases bs rule: rev_cases) (auto simp: hm tl first_append)
  have "path (get_next h2) (head ?pl2) (as @ bs) None"
    unfolding N2 N1 hd2 using pn by (rule splice_out)
  moreover have "path (get_prev h2) (tail ?pl2) (rev (as @ bs)) None"
  proof -
    have "path (if rev bs = [] then ?P else ?P(last (rev bs) \<mapsto> first (rev as)))
               (first (rev bs @ rev as)) (rev bs @ rev as) None"
      using pp by (rule splice_out)
    moreover have "last (rev bs) = hd bs" if "bs \<noteq> []" using that by (simp add: last_rev)
    ultimately show ?thesis unfolding P2 tl2 by (cases "bs = []") simp_all
  qed
  ultimately have "is_playlist h2 ?pl2 (as @ bs)" by (simp add: is_playlist_def)
  with res show ?thesis using D2 A2 by (rule that)
qed


section \<open>Removal by index\<close>

lemma delete_song_no_catalog: "head pl = None \<Longrightarrow> delete_song h pl index = Some (h, pl)"
  by (simp add: delete_song_def)

lemma delete_song_beyond:
  assumes "is_playlist h pl xs" and "int (length xs) \<le> index"
  shows "delete_song h pl index = Some (h, pl)"
proof -
  from assms(1) have "path (get_next h) (head pl) xs None" by (simp add: is_playlist_def)
  then have "advance h (head pl) 0 index = Some (node_at xs (nat index))"
    using advance_path [of h "head pl" xs 0 index] by simp
  moreover from assms(2) have "node_at xs (nat index) = None" by (simp add: node_at_def)
  ultimately show ?thesis by (simp add: delete_song_def)
qed

lemma delete_song_at:
  assumes wf: "is_playlist h pl xs" and "xs \<noteq> []" and "index < int (length xs)"
  shows "\<exists>h' pl'. delete_song h pl index = Some (h', pl')
           \<and> is_playlist h' pl' (take (nat index) xs @ drop (Suc (nat index)) xs)
           \<and> h' (xs ! nat index) = None"
proof -
  let ?k = "nat index"
  let ?m = "xs ! ?k"
  from assms(2) have "0 < length xs" by simp
  with assms(3) have k: "?k < length xs" by linarith
  then have xs: "xs = take ?k xs @ ?m # drop (Suc ?k) xs" by (rule id_take_nth_drop)
  from k have ne: "xs \<noteq> []" by auto
  with playlist_anchors(1) [OF wf] have hd: "head pl \<noteq> None" by (cases xs) auto
  from wf have "path (get_next h) (head pl) xs None" by (simp add: is_playlist_def)
  then have "advance h (head pl) 0 index = Some (node_at xs ?k)"
    using advance_path [of h "head pl" xs 0 index] by simp
  with k have adv: "advance h (head pl) 0 index = Some (Some ?m)" by (simp add: node_at_def)
  from wf xs have "is_playlist h pl (take ?k xs @ ?m # drop (Suc ?k) xs)" by simp
  then obtain h1 pl1 where un: "unlink h pl ?m = Some (h1, pl1)"
    and wf1: "is_playlist h1 pl1 (take ?k xs @ drop (Suc ?k) xs)"
    by (rule unlink_playlist)
  from playlist_distinct [OF wf] xs have "distinct (take ?k xs @ ?m # drop (Suc ?k) xs)" by simp
  then have notin: "?m \<notin> set (take ?k xs @ drop (Suc ?k) xs)" by auto
  have "is_playlist (h1(?m := None)) pl1 (take ?k xs @ drop (Suc ?k) xs)"
    using wf1
  proof (rule is_playlist_frame)
    show "\<forall>a \<in> set (take ?k xs @ drop (Suc ?k) xs).
            get_next (h1(?m := None)) a = get_next h1 a \<and> get_prev (h1(?m := None)) a = get_prev h1 a"
      using notin by (auto simp: get_next_def get_prev_def)
  qed
  moreover have "delete_song h pl index = Some (h1(?m := None), pl1)"
    using hd by (auto simp: delete_song_def adv un)
  ultimately show ?thesis by simp
qed


text \<open>
  C7: \<open>delete_song\<close> with an index out of bounds (negative, or not less than the length of
  the catalog), or on the empty catalog, is to leave the catalog unchanged.  The code does so
  for the empty catalog (\<open>delete_song_no_catalog\<close>) and for an index not less than the length
  (\<open>delete_song_beyond\<close>), where the loop runs off the end and the function returns at
  \<open>// Index out of bounds\<close>.  For a negative index the loop does not run, \<open>temp\<close> is the
  first node, and the first song is removed (\<open>delete_song_at\<close>): with the songs A and B in the
  catalog (at the addresses 1 and 2), \<open>delete_song(-1)\<close> deletes A and leaves the catalog B.
\<close>

theorem delete_song_negative_index:
  "delete_song
     [1 \<mapsto> \<lparr>title = ''A'', artist = ''X'', genre = ''Jazz'', duration = 100,
             prev = None, next = Some 2\<rparr>,
      2 \<mapsto> \<lparr>title = ''B'', artist = ''Y'', genre = ''Rock'', duration = 90,
             prev = Some 1, next = None\<rparr>]
     \<lparr>head = Some 1, tail = Some 2\<rparr> (- 1)
   = Some ([2 \<mapsto> \<lparr>title = ''B'', artist = ''Y'', genre = ''Rock'', duration = 90,
                    prev = None, next = None\<rparr>],
           \<lparr>head = Some 2, tail = Some 2\<rparr>)
   \<and> get_all_songs
       [1 \<mapsto> \<lparr>title = ''A'', artist = ''X'', genre = ''Jazz'', duration = 100,
               prev = None, next = Some 2\<rparr>,
        2 \<mapsto> \<lparr>title = ''B'', artist = ''Y'', genre = ''Rock'', duration = 90,
               prev = Some 1, next = None\<rparr>]
       \<lparr>head = Some 1, tail = Some 2\<rparr> = Some [1, 2]
   \<and> get_all_songs
       [2 \<mapsto> \<lparr>title = ''B'', artist = ''Y'', genre = ''Rock'', duration = 90,
               prev = None, next = None\<rparr>]
       \<lparr>head = Some 2, tail = Some 2\<rparr> = Some [2]"
proof -
  have "advance
     [1 \<mapsto> \<lparr>title = ''A'', artist = ''X'', genre = ''Jazz'', duration = 100,
             prev = None, next = Some 2\<rparr>,
      2 \<mapsto> \<lparr>title = ''B'', artist = ''Y'', genre = ''Rock'', duration = 90,
             prev = Some 1, next = None\<rparr>] (Some 1) 0 (- 1) = Some (Some 1)"
    by (subst advance.simps) simp
  then have "delete_song
     [1 \<mapsto> \<lparr>title = ''A'', artist = ''X'', genre = ''Jazz'', duration = 100,
             prev = None, next = Some 2\<rparr>,
      2 \<mapsto> \<lparr>title = ''B'', artist = ''Y'', genre = ''Rock'', duration = 90,
             prev = Some 1, next = None\<rparr>]
     \<lparr>head = Some 1, tail = Some 2\<rparr> (- 1)
   = Some ([2 \<mapsto> \<lparr>title = ''B'', artist = ''Y'', genre = ''Rock'', duration = 90,
                    prev = None, next = None\<rparr>],
           \<lparr>head = Some 2, tail = Some 2\<rparr>)"
    by (auto simp: delete_song_def unlink_def get_next_def get_prev_def set_next_def set_prev_def
                   fun_eq_iff)
  moreover have "get_all_songs
       [1 \<mapsto> \<lparr>title = ''A'', artist = ''X'', genre = ''Jazz'', duration = 100,
               prev = None, next = Some 2\<rparr>,
        2 \<mapsto> \<lparr>title = ''B'', artist = ''Y'', genre = ''Rock'', duration = 90,
               prev = Some 1, next = None\<rparr>]
       \<lparr>head = Some 1, tail = Some 2\<rparr> = Some [1, 2]"
    by code_simp
  moreover have "get_all_songs
       [2 \<mapsto> \<lparr>title = ''B'', artist = ''Y'', genre = ''Rock'', duration = 90,
               prev = None, next = None\<rparr>]
       \<lparr>head = Some 2, tail = Some 2\<rparr> = Some [2]"
    by code_simp
  ultimately show ?thesis by blast
qed

section \<open>Moving a song\<close>

lemma insert_at_beginning_playlist:
  assumes wf: "is_playlist h pl cs" and notin: "m \<notin> set cs" and alloc: "h m \<noteq> None"
    and Pm: "get_prev h m = Some None"
  shows "\<exists>h' pl'. insert_at_beginning h pl m = Some (h', pl') \<and> is_playlist h' pl' (m # cs)"
proof -
  let ?N = "get_next h" and ?P = "get_prev h"
  from wf have pn: "path ?N (head pl) cs None" and pp: "path ?P (tail pl) (rev cs) None"
    by (simp_all add: is_playlist_def)
  from playlist_anchors [OF wf] have hd: "head pl = first cs" and tl: "tail pl = first (rev cs)" .
  obtain h1 where s1: "set_next h m (head pl) = Some h1"
    and N1: "get_next h1 = ?N(m \<mapsto> first cs)" and P1: "get_prev h1 = ?P"
    and A1: "\<And>a. (h1 a = None) = (h a = None)"
    using alloc by (rule set_next_fields [where v = "head pl"]) (simp add: hd)
  obtain h2 where s2: "(case head pl of None \<Rightarrow> Some h1 | Some c \<Rightarrow> set_prev h1 c (Some m)) = Some h2"
    and N2: "get_next h2 = get_next h1"
    and P2: "get_prev h2 = (if cs = [] then ?P else ?P(hd cs \<mapsto> Some m))"
  proof (cases cs)
    case Nil
    then show ?thesis using P1 by (intro that [of h1]) (simp_all add: hd)
  next
    case (Cons c cs')
    then have "h c \<noteq> None" using playlist_allocated [OF wf, of c] by auto
    then have "h1 c \<noteq> None" by (simp add: A1)
    then obtain h2 where "set_prev h1 c (Some m) = Some h2"
      and "get_prev h2 = (get_prev h1)(c \<mapsto> Some m)" and "get_next h2 = get_next h1"
      by (rule set_prev_fields [where v = "Some m"]) blast
    then show ?thesis using Cons P1 by (intro that [of h2]) (simp_all add: hd)
  qed
  let ?pl1 = "pl\<lparr>head := Some m\<rparr>"
  let ?pl' = "if tail ?pl1 = None then ?pl1\<lparr>tail := Some m\<rparr> else ?pl1"
  have res: "insert_at_beginning h pl m = Some (h2, ?pl')"
    by (simp add: insert_at_beginning_def s1 s2 Let_def)
  have "path (get_next h2) (head ?pl') (m # cs) None"
    using splice_in [of ?N "head pl" "[]" cs m] pn notin by (simp add: N2 N1)
  moreover have "path (get_prev h2) (tail ?pl') (rev (m # cs)) None"
  proof -
    have sp: "path ((if rev cs = [] then ?P else ?P(last (rev cs) \<mapsto> Some m))(m \<mapsto> first []))
                             (first (rev cs @ m # [])) (rev cs @ m # []) None"
      using pp notin by (intro splice_in) simp_all
    have "(if rev cs = [] then ?P else ?P(last (rev cs) \<mapsto> Some m))(m \<mapsto> first []) = get_prev h2"
      using Pm notin by (cases cs) (auto simp: P2 fun_eq_iff last_rev)
    moreover have "first (rev cs @ m # []) = tail ?pl'"
      by (cases cs rule: rev_cases) (simp_all add: tl first_append)
    ultimately show ?thesis using sp by simp
  qed
  ultimately have "is_playlist h2 ?pl' (m # cs)" by (simp add: is_playlist_def)
  with res show ?thesis by blast
qed

lemma insert_after_playlist:
  assumes wf: "is_playlist h pl (us @ vs)" and us: "us \<noteq> []"
    and notin: "m \<notin> set (us @ vs)" and alloc: "h m \<noteq> None"
  shows "\<exists>h' pl'. insert_after h pl (last us) m = Some (h', pl') \<and> is_playlist h' pl' (us @ m # vs)"
proof -
  let ?N = "get_next h" and ?P = "get_prev h" and ?t = "last us"
  from wf have pn: "path ?N (head pl) (us @ vs) None"
    and pp: "path ?P (tail pl) (rev vs @ rev us) None"
    by (simp_all add: is_playlist_def)
  from playlist_anchors [OF wf] have hd: "head pl = first (us @ vs)"
    and tl: "tail pl = first (rev (us @ vs))" .
  from us have us_eq: "us = butlast us @ [?t]" by simp
  from us notin have tm: "?t \<noteq> m" by (metis UnCI last_in_set set_append)
  have "path ?N (head pl) (butlast us @ ?t # vs) None"
    using pn by (subst (asm) us_eq) simp
  then have Nt: "?N ?t = Some (first vs)" by (rule path_node)
  have talloc: "h ?t \<noteq> None"
    using playlist_allocated [OF wf, of ?t] us by auto
  \<comment> \<open>\<open>song_to_move->next = temp->next; song_to_move->prev = temp;\<close>\<close>
  obtain h1 where s1: "set_next h m (first vs) = Some h1"
    and N1: "get_next h1 = ?N(m \<mapsto> first vs)" and P1: "get_prev h1 = ?P"
    and A1: "\<And>a. (h1 a = None) = (h a = None)"
    using alloc by (rule set_next_fields [where v = "first vs"]) blast
  from alloc have "h1 m \<noteq> None" by (simp add: A1)
  then obtain h2 where s2: "set_prev h1 m (Some ?t) = Some h2"
    and P2: "get_prev h2 = (get_prev h1)(m \<mapsto> Some ?t)" and N2: "get_next h2 = get_next h1"
    and A2: "\<And>a. (h2 a = None) = (h1 a = None)"
    by (rule set_prev_fields [where v = "Some ?t"]) blast
  have N2t: "get_next h2 ?t = Some (first vs)"
    using tm Nt by (simp add: N2 N1)
  \<comment> \<open>\<open>if (temp->next) temp->next->prev = song_to_move; else tail = song_to_move;\<close>\<close>
  obtain h3 pl1 where s3: "(case first vs of
                              Some n \<Rightarrow> set_prev h2 n (Some m) \<bind> (\<lambda>h'. Some (h', pl))
                            | None \<Rightarrow> Some (h2, pl\<lparr>tail := Some m\<rparr>)) = Some (h3, pl1)"
    and N3: "get_next h3 = get_next h2"
    and P3: "get_prev h3 = (if vs = [] then get_prev h2 else (get_prev h2)(hd vs \<mapsto> Some m))"
    and A3: "\<And>a. (h3 a = None) = (h2 a = None)"
    and hd1: "head pl1 = head pl"
    and tl1: "tail pl1 = (if vs = [] then Some m else tail pl)"
  proof (cases vs)
    case Nil
    then show ?thesis by (intro that [of h2 "pl\<lparr>tail := Some m\<rparr>"]) simp_all
  next
    case (Cons n vs')
    then have "h n \<noteq> None" using playlist_allocated [OF wf, of n] by auto
    then have "h2 n \<noteq> None" by (simp add: A1 A2)
    then obtain h3 where "set_prev h2 n (Some m) = Some h3"
      and "get_prev h3 = (get_prev h2)(n \<mapsto> Some m)" and "get_next h3 = get_next h2"
      and "\<And>a. (h3 a = None) = (h2 a = None)"
      by (rule set_prev_fields [where v = "Some m"]) blast
    then show ?thesis using Cons by (intro that [of h3 pl]) simp_all
  qed
  \<comment> \<open>\<open>temp->next = song_to_move;\<close>\<close>
  from talloc have "h3 ?t \<noteq> None" by (simp add: A1 A2 A3)
  then obtain h4 where s4: "set_next h3 ?t (Some m) = Some h4"
    and N4: "get_next h4 = (get_next h3)(?t \<mapsto> Some m)" and P4: "get_prev h4 = get_prev h3"
    by (rule set_next_fields [where v = "Some m"]) blast
  have res: "insert_after h pl ?t m = Some (h4, pl1)"
    using s3 by (simp add: insert_after_def Nt s1 s2 N2t s4)
  have "path (get_next h4) (head pl1) (us @ m # vs) None"
  proof -
    from pn notin have "path ((if us = [] then ?N else ?N(?t \<mapsto> Some m))(m \<mapsto> first vs))
                             (first (us @ m # vs)) (us @ m # vs) None"
      by (rule splice_in)
    moreover have "(if us = [] then ?N else ?N(?t \<mapsto> Some m))(m \<mapsto> first vs) = get_next h4"
      using us tm by (auto simp: N4 N3 N2 N1 fun_eq_iff)
    moreover have "first (us @ m # vs) = head pl1"
      using us by (simp add: hd1 hd first_append)
    ultimately show ?thesis by simp
  qed
  moreover have "path (get_prev h4) (tail pl1) (rev (us @ m # vs)) None"
  proof -
    from notin have "m \<notin> set (rev vs @ rev us)" by simp
    with pp have "path ((if rev vs = [] then ?P else ?P(last (rev vs) \<mapsto> Some m))(m \<mapsto> first (rev us)))
                       (first (rev vs @ m # rev us)) (rev vs @ m # rev us) None"
      by (rule splice_in)
    moreover have "(if rev vs = [] then ?P else ?P(last (rev vs) \<mapsto> Some m))(m \<mapsto> first (rev us))
                     = get_prev h4"
      using us notin by (cases vs) (auto simp: P4 P3 P2 P1 fun_eq_iff first_rev last_rev)
    moreover have "first (rev vs @ m # rev us) = tail pl1"
      by (cases vs rule: rev_cases) (simp_all add: tl1 tl first_append)
    ultimately show ?thesis by simp
  qed
  ultimately have "is_playlist h4 pl1 (us @ m # vs)" by (simp add: is_playlist_def)
  with res show ?thesis by blast
qed


lemma last_take_nth:
  assumes "0 < k" and "k \<le> length cs"
  shows "last (take k cs) = cs ! (k - 1)"
proof -
  from assms have "take k cs \<noteq> []" by auto
  then have "last (take k cs) = take k cs ! (length (take k cs) - 1)" by (rule last_conv_nth)
  also from assms have "\<dots> = cs ! (k - 1)" by (simp add: min_def)
  finally show ?thesis .
qed

lemma move_song_playlist:
  assumes wf: "is_playlist h pl xs"
    and i: "i < length xs" and j: "j < length xs" and ij: "i \<noteq> j"
    and jmax: "int j \<le> INT_MAX"
  shows "\<exists>h' pl'. move_song h pl (int i) (int j) = Some (h', pl')
           \<and> is_playlist h' pl' (moved xs i j)"
proof -
  define m where "m = xs ! i"
  define cs where "cs = take i xs @ drop (Suc i) xs"
  define k where "k = (if j > i then j - 1 else j)"
  from i have xs: "xs = take i xs @ m # drop (Suc i) xs"
    unfolding m_def by (rule id_take_nth_drop)
  from i have len: "length cs = length xs - 1" by (simp add: cs_def)
  from i j ij have k: "k < length cs" unfolding len k_def by auto
  have moved: "moved xs i j = take k cs @ m # drop k cs"
    by (simp add: moved_def Let_def m_def cs_def k_def)
  from i playlist_anchors(1) [OF wf] obtain y where hdy: "head pl = Some y"
    by (cases xs) auto
  \<comment> \<open>Find song to move\<close>
  from wf have "path (get_next h) (head pl) xs None" by (simp add: is_playlist_def)
  then have "advance h (head pl) 0 (int i) = Some (node_at xs i)"
    using advance_path [of h "head pl" xs 0 "int i"] by simp
  with i have adv: "advance h (Some y) 0 (int i) = Some (Some m)"
    by (simp add: node_at_def m_def hdy)
  \<comment> \<open>Remove from current position\<close>
  from wf xs have "is_playlist h pl (take i xs @ m # drop (Suc i) xs)" by simp
  then obtain h1 pl1 where un: "unlink h pl m = Some (h1, pl1)"
    and wf1: "is_playlist h1 pl1 cs" and m1: "h1 m = h m"
    unfolding cs_def by (rule unlink_playlist)
  from playlist_distinct [OF wf] xs have "distinct (take i xs @ m # drop (Suc i) xs)" by simp
  then have notin: "m \<notin> set cs" by (auto simp: cs_def)
  from i have "h m \<noteq> None" using playlist_allocated [OF wf, of m] by (auto simp: m_def)
  with m1 have a1: "h1 m \<noteq> None" by simp
  then obtain h2 where s2: "set_prev h1 m None = Some h2"
    and P2: "get_prev h2 = (get_prev h1)(m \<mapsto> None)" and N2: "get_next h2 = get_next h1"
    and A2: "\<And>a. (h2 a = None) = (h1 a = None)"
    by (rule set_prev_fields [where v = None]) blast
  from a1 have a2: "h2 m \<noteq> None" by (simp add: A2)
  then obtain h3 where s3: "set_next h2 m None = Some h3"
    and N3: "get_next h3 = (get_next h2)(m \<mapsto> None)" and P3: "get_prev h3 = get_prev h2"
    and A3: "\<And>a. (h3 a = None) = (h2 a = None)"
    by (rule set_next_fields [where v = None]) blast
  have wf3: "is_playlist h3 pl1 cs"
    using wf1
  proof (rule is_playlist_frame)
    show "\<forall>a \<in> set cs. get_next h3 a = get_next h1 a \<and> get_prev h3 a = get_prev h1 a"
      using notin by (auto simp: N3 N2 P3 P2)
  qed
  have m3: "h3 m \<noteq> None" using a2 by (simp add: A3)
  have Pm3: "get_prev h3 m = Some None" by (simp add: P3 P2)
  \<comment> \<open>Adjust target index, insert at new position\<close>
  define kk where "kk = (if int j > int i then int j - 1 else int j)"
  have kk: "kk = int k" by (auto simp: kk_def k_def)
  from ij have ij': "int i \<noteq> int j" by simp
  have "move_song h pl (int i) (int j) =
      (if kk = 0 then insert_at_beginning h3 pl1 m
       else (case head pl1 of None \<Rightarrow> Some None
             | Some _ \<Rightarrow> checked (kk - 1) \<bind> advance h3 (head pl1) 0) \<bind>
              (\<lambda>temp. case temp of None \<Rightarrow> insert_at_end h3 pl1 m
                                 | Some t \<Rightarrow> insert_after h3 pl1 t m))"
    unfolding move_song_def kk_def [symmetric]
    by (simp only: ij' hdy adv un s2 s3 Let_def bind.bind_lunit option.case
                   prod.case option.distinct simp_thms if_False)
  then have start: "move_song h pl (int i) (int j) =
      (if k = 0 then insert_at_beginning h3 pl1 m
       else (case head pl1 of None \<Rightarrow> Some None
             | Some _ \<Rightarrow> checked (int k - 1) \<bind> advance h3 (head pl1) 0) \<bind>
              (\<lambda>temp. case temp of None \<Rightarrow> insert_at_end h3 pl1 m
                                 | Some t \<Rightarrow> insert_after h3 pl1 t m))"
    unfolding kk by (simp only: of_nat_eq_0_iff)
  show ?thesis
  proof (cases "k = 0")
    case True
    from insert_at_beginning_playlist [OF wf3 notin m3 Pm3]
    obtain h' pl' where "insert_at_beginning h3 pl1 m = Some (h', pl')"
      and "is_playlist h' pl' (m # cs)" by blast
    then show ?thesis using True by (simp add: start moved)
  next
    case False
    from False k have us: "take k cs \<noteq> []" by auto
    from False k have last: "last (take k cs) = cs ! (k - 1)"
      by (intro last_take_nth) simp_all
    from wf3 have "path (get_next h3) (head pl1) cs None" by (simp add: is_playlist_def)
    then have "advance h3 (head pl1) 0 (int k - 1) = Some (node_at cs (nat (int k - 1 - 0)))"
      by (rule advance_path)
    moreover from False have "nat (int k - 1 - 0) = k - 1" by simp
    moreover from k have "k - 1 < length cs" by simp
    ultimately have "advance h3 (head pl1) 0 (int k - 1) = Some (Some (last (take k cs)))"
      by (simp only: node_at_def last if_True)
    moreover have "checked (int k - 1) = Some (int k - 1)"
    proof (rule checked_in_range)
      from False INT_MIN_negative show "INT_MIN \<le> int k - 1" by simp
      from jmax have "int k \<le> INT_MAX" by (simp add: k_def)
      then show "int k - 1 \<le> INT_MAX" by simp
    qed
    moreover from k playlist_anchors(1) [OF wf3] obtain c where "head pl1 = Some c"
      by (cases cs) auto
    ultimately have adv3: "(case head pl1 of None \<Rightarrow> Some None
             | Some _ \<Rightarrow> checked (int k - 1) \<bind> advance h3 (head pl1) 0)
          = Some (Some (last (take k cs)))"
      by (simp del: of_nat_diff)
    from wf3 have w: "is_playlist h3 pl1 (take k cs @ drop k cs)" by simp
    from notin have n: "m \<notin> set (take k cs @ drop k cs)" by simp
    from insert_after_playlist [OF w us n m3]
    obtain h' pl' where "insert_after h3 pl1 (last (take k cs)) m = Some (h', pl')"
      and "is_playlist h' pl' (take k cs @ m # drop k cs)"
      by blast
    then show ?thesis using False
      by (simp only: start adv3 moved if_False bind.bind_lunit option.case) blast
  qed
qed


text \<open>
  Where the moved song ends up: at the target index for a move towards the front, one
  position before it for a move towards the back, where the song that was at the target index
  stays in place.
\<close>

lemma moved_length: "i < length xs \<Longrightarrow> length (moved xs i j) = length xs"
  by (auto simp: moved_def Let_def)

lemma nth_insert_at:
  assumes "k \<le> length cs"
  shows "(take k cs @ m # drop k cs) ! k = m"
proof -
  from assms have "length (take k cs) = k" by simp
  moreover have "(take k cs @ m # drop k cs) ! length (take k cs) = m"
    by (rule nth_append_length)
  ultimately show ?thesis by (simp only:)
qed

lemma nth_insert_after:
  assumes "k < length cs"
  shows "(take k cs @ m # drop k cs) ! Suc k = cs ! k"
proof -
  from assms have len: "length (take k cs) = k" by simp
  have "(take k cs @ m # drop k cs) ! (length (take k cs) + 1) = (m # drop k cs) ! 1"
    by (rule nth_append_length_plus)
  also from assms have "\<dots> = cs ! k" by simp
  finally show ?thesis by (simp only: len Suc_eq_plus1)
qed

lemma nth_without:
  assumes "i \<le> n" and "Suc n < length xs"
  shows "(take i xs @ drop (Suc i) xs) ! n = xs ! Suc n"
proof -
  from assms have len: "length (take i xs) = i" by simp
  from assms have n: "n = length (take i xs) + (n - i)" by simp
  have "(take i xs @ drop (Suc i) xs) ! (length (take i xs) + (n - i)) = drop (Suc i) xs ! (n - i)"
    by (rule nth_append_length_plus)
  also from assms have "\<dots> = xs ! Suc n" by simp
  finally show ?thesis using n by simp
qed

lemma moved_towards_front:
  assumes "j < i" and "i < length xs"
  shows "moved xs i j ! j = xs ! i"
proof -
  define cs where "cs = take i xs @ drop (Suc i) xs"
  from assms have "j \<le> length cs" by (simp add: cs_def)
  then have "(take j cs @ xs ! i # drop j cs) ! j = xs ! i" by (rule nth_insert_at)
  moreover from assms have "moved xs i j = take j cs @ xs ! i # drop j cs"
    by (simp add: moved_def Let_def cs_def)
  ultimately show ?thesis by simp
qed

lemma moved_towards_back:
  assumes "i < j" and "j < length xs"
  shows "moved xs i j ! (j - 1) = xs ! i \<and> moved xs i j ! j = xs ! j"
proof -
  define cs where "cs = take i xs @ drop (Suc i) xs"
  define k where "k = j - 1"
  from assms have j: "j = Suc k" by (simp add: k_def)
  from assms have k: "k < length cs" by (simp add: cs_def k_def)
  from assms have "moved xs i j = take k cs @ xs ! i # drop k cs"
    by (simp add: moved_def Let_def cs_def k_def)
  then have mv: "moved xs i (Suc k) = take k cs @ xs ! i # drop k cs"
    by (simp only: j)
  from k have "(take k cs @ xs ! i # drop k cs) ! k = xs ! i"
    by (intro nth_insert_at) simp
  moreover from k have "(take k cs @ xs ! i # drop k cs) ! Suc k = cs ! k"
    by (rule nth_insert_after)
  moreover from assms have "cs ! k = xs ! Suc k"
    unfolding cs_def by (intro nth_without) (simp_all add: k_def)
  ultimately show ?thesis by (simp only: mv j diff_Suc_1 simp_thms)
qed

lemma moved_towards_front_next:
  assumes "j < i" and "i < length xs"
  shows "moved xs i j ! Suc j = xs ! j"
proof -
  define cs where "cs = take i xs @ drop (Suc i) xs"
  from assms have j: "j < length cs" by (simp add: cs_def)
  then have "(take j cs @ xs ! i # drop j cs) ! Suc j = cs ! j" by (rule nth_insert_after)
  moreover from assms have "cs ! j = xs ! j" by (simp add: cs_def nth_append)
  moreover from assms have "moved xs i j = take j cs @ xs ! i # drop j cs"
    by (simp add: moved_def Let_def cs_def)
  ultimately show ?thesis by simp
qed

lemma moved_others:
  assumes "i < length xs"
  shows "filter (\<lambda>x. x \<noteq> xs ! i) (moved xs i j) = filter (\<lambda>x. x \<noteq> xs ! i) xs"
proof -
  define m where "m = xs ! i"
  define cs where "cs = take i xs @ drop (Suc i) xs"
  define k where "k = (if j > i then j - 1 else j)"
  from assms have xs: "xs = take i xs @ m # drop (Suc i) xs"
    unfolding m_def by (rule id_take_nth_drop)
  have "filter (\<lambda>x. x \<noteq> m) (take i xs @ m # drop (Suc i) xs) = filter (\<lambda>x. x \<noteq> m) cs"
    by (simp add: cs_def)
  with xs have right: "filter (\<lambda>x. x \<noteq> m) xs = filter (\<lambda>x. x \<noteq> m) cs" by simp
  have "filter (\<lambda>x. x \<noteq> m) (take k cs @ m # drop k cs)
          = filter (\<lambda>x. x \<noteq> m) (take k cs) @ filter (\<lambda>x. x \<noteq> m) (drop k cs)"
    by simp
  also have "\<dots> = filter (\<lambda>x. x \<noteq> m) (take k cs @ drop k cs)"
    by (simp only: filter_append)
  also have "\<dots> = filter (\<lambda>x. x \<noteq> m) cs"
    by (simp only: append_take_drop_id)
  finally have left: "filter (\<lambda>x. x \<noteq> m) (take k cs @ m # drop k cs) = filter (\<lambda>x. x \<noteq> m) cs" .
  have "moved xs i j = take k cs @ m # drop k cs"
    by (simp add: moved_def Let_def m_def cs_def k_def)
  with left right show ?thesis by (simp add: m_def)
qed

text \<open>
  C1, as the specification states it, fails on the code: on the catalog A, B, C (at the
  addresses 1, 2, 3), \<open>move_song(0, 2)\<close> leaves B, A, C; the song A is at position 1 and not
  at position 2, and the catalog is not B, C, A.
\<close>

theorem move_song_forward_counterexample:
  "move_song
     [1 \<mapsto> \<lparr>title = ''A'', artist = ''X'', genre = ''Jazz'', duration = 100,
             prev = None, next = Some 2\<rparr>,
      2 \<mapsto> \<lparr>title = ''B'', artist = ''Y'', genre = ''Rock'', duration = 90,
             prev = Some 1, next = Some 3\<rparr>,
      3 \<mapsto> \<lparr>title = ''C'', artist = ''Z'', genre = ''Pop'', duration = 80,
             prev = Some 2, next = None\<rparr>]
     \<lparr>head = Some 1, tail = Some 3\<rparr> 0 2
     \<bind> (\<lambda>(h', pl'). get_all_songs h' pl') = Some [2, 1, 3]
   \<and> get_all_songs
     [1 \<mapsto> \<lparr>title = ''A'', artist = ''X'', genre = ''Jazz'', duration = 100,
             prev = None, next = Some 2\<rparr>,
      2 \<mapsto> \<lparr>title = ''B'', artist = ''Y'', genre = ''Rock'', duration = 90,
             prev = Some 1, next = Some 3\<rparr>,
      3 \<mapsto> \<lparr>title = ''C'', artist = ''Z'', genre = ''Pop'', duration = 80,
             prev = Some 2, next = None\<rparr>]
     \<lparr>head = Some 1, tail = Some 3\<rparr> = Some [1, 2, 3]"
  by code_simp

text \<open>
  C1 (amended): for every well-formed catalog \<open>xs\<close> and every pair of distinct indices in
  range, \<open>move_song(from_index, to_index)\<close> returns and leaves a well-formed catalog \<open>ys\<close> of
  the same length, in which the song that was at \<open>from_index\<close> stands directly before the song
  that was at \<open>to_index\<close>, and all other songs are in their former order.  The song is taken
  out, the target index is decremented by one for a move towards the back, and the song is
  put in at that index of the sequence after removal: it ends up at position \<open>to_index\<close> when
  \<open>to_index < from_index\<close>, and at position \<open>to_index - 1\<close> when \<open>to_index > from_index\<close>, where
  the song that was at \<open>to_index\<close> keeps its position.
\<close>

theorem move_song_relocates:
  assumes "is_playlist h pl xs"
    and "0 \<le> from_index" and "from_index < int (length xs)"
    and "0 \<le> to_index" and "to_index < int (length xs)"
    and "from_index \<noteq> to_index" and "to_index \<le> INT_MAX"
  shows "\<exists>h' pl' ys.
           move_song h pl from_index to_index = Some (h', pl')
           \<and> is_playlist h' pl' ys \<and> get_all_songs h' pl' = Some ys
           \<and> ys = moved xs (nat from_index) (nat to_index)
           \<and> length ys = length xs
           \<and> (to_index < from_index \<longrightarrow>
                 ys ! nat to_index = xs ! nat from_index
                 \<and> ys ! Suc (nat to_index) = xs ! nat to_index)
           \<and> (from_index < to_index \<longrightarrow>
                 ys ! (nat to_index - 1) = xs ! nat from_index
                 \<and> ys ! nat to_index = xs ! nat to_index)
           \<and> filter (\<lambda>x. x \<noteq> xs ! nat from_index) ys
                 = filter (\<lambda>x. x \<noteq> xs ! nat from_index) xs"
proof -
  define i where "i = nat from_index"
  define j where "j = nat to_index"
  from assms have fi: "from_index = int i" and tj: "to_index = int j"
    by (simp_all add: i_def j_def)
  from assms have i: "i < length xs" and j: "j < length xs" and ij: "i \<noteq> j"
    by (simp_all add: i_def j_def)
  from assms(7) have jmax: "int j \<le> INT_MAX" by (simp add: tj)
  from move_song_playlist [OF assms(1) i j ij jmax]
  obtain h' pl' where mv: "move_song h pl from_index to_index = Some (h', pl')"
    and wf': "is_playlist h' pl' (moved xs i j)"
    unfolding fi tj by blast
  have listed: "get_all_songs h' pl' = Some (moved xs i j)"
    using wf' by (rule get_all_songs_playlist)
  have len: "length (moved xs i j) = length xs"
    using i by (rule moved_length)
  have to_front: "moved xs i j ! j = xs ! i \<and> moved xs i j ! Suc j = xs ! j" if "j < i"
    using that i by (simp add: moved_towards_front moved_towards_front_next)
  have to_back: "moved xs i j ! (j - 1) = xs ! i \<and> moved xs i j ! j = xs ! j" if "i < j"
    using that j by (rule moved_towards_back)
  have others: "filter (\<lambda>x. x \<noteq> xs ! i) (moved xs i j) = filter (\<lambda>x. x \<noteq> xs ! i) xs"
    using i by (rule moved_others)
  have lt1: "(to_index < from_index) = (j < i)" and lt2: "(from_index < to_index) = (i < j)"
    by (simp_all add: fi tj)
  from mv wf' listed len to_front to_back others show ?thesis
    unfolding lt1 lt2 i_def [symmetric] j_def [symmetric] by blast
qed

theorem move_song_relocates_witness:
  "move_song
     [1 \<mapsto> \<lparr>title = ''A'', artist = ''X'', genre = ''Jazz'', duration = 100,
             prev = None, next = Some 2\<rparr>,
      2 \<mapsto> \<lparr>title = ''B'', artist = ''Y'', genre = ''Rock'', duration = 90,
             prev = Some 1, next = Some 3\<rparr>,
      3 \<mapsto> \<lparr>title = ''C'', artist = ''Z'', genre = ''Pop'', duration = 80,
             prev = Some 2, next = Some 4\<rparr>,
      4 \<mapsto> \<lparr>title = ''D'', artist = ''W'', genre = ''Folk'', duration = 70,
             prev = Some 3, next = None\<rparr>]
     \<lparr>head = Some 1, tail = Some 4\<rparr> 1 3
     \<bind> (\<lambda>(h', pl'). get_all_songs h' pl') = Some [1, 3, 2, 4]
   \<and> move_song
     [1 \<mapsto> \<lparr>title = ''A'', artist = ''X'', genre = ''Jazz'', duration = 100,
             prev = None, next = Some 2\<rparr>,
      2 \<mapsto> \<lparr>title = ''B'', artist = ''Y'', genre = ''Rock'', duration = 90,
             prev = Some 1, next = Some 3\<rparr>,
      3 \<mapsto> \<lparr>title = ''C'', artist = ''Z'', genre = ''Pop'', duration = 80,
             prev = Some 2, next = Some 4\<rparr>,
      4 \<mapsto> \<lparr>title = ''D'', artist = ''W'', genre = ''Folk'', duration = 70,
             prev = Some 3, next = None\<rparr>]
     \<lparr>head = Some 1, tail = Some 4\<rparr> 3 1
     \<bind> (\<lambda>(h', pl'). get_all_songs h' pl') = Some [1, 4, 2, 3]"
proof -
  let ?h = "[1 \<mapsto> \<lparr>title = ''A'', artist = ''X'', genre = ''Jazz'', duration = 100,
             prev = None, next = Some 2\<rparr>,
      2 \<mapsto> \<lparr>title = ''B'', artist = ''Y'', genre = ''Rock'', duration = 90,
             prev = Some 1, next = Some 3\<rparr>,
      3 \<mapsto> \<lparr>title = ''C'', artist = ''Z'', genre = ''Pop'', duration = 80,
             prev = Some 2, next = Some 4\<rparr>,
      4 \<mapsto> \<lparr>title = ''D'', artist = ''W'', genre = ''Folk'', duration = 70,
             prev = Some 3, next = None\<rparr>] :: heap"
  let ?pl = "\<lparr>head = Some 1, tail = Some 4\<rparr>"
  have wf: "is_playlist ?h ?pl [1, 2, 3, 4]"
    by (simp add: is_playlist_def get_next_def get_prev_def)
  have m13: "moved [1, 2, 3, 4] (nat 1) (nat 3) = [1, 3, 2, 4]"
    and m31: "moved [1, 2, 3, 4] (nat 3) (nat 1) = [1, 4, 2, 3]"
    by (simp_all add: moved_def)
  have "\<exists>h' pl' ys. move_song ?h ?pl 1 3 = Some (h', pl') \<and> get_all_songs h' pl' = Some ys
          \<and> ys = moved [1, 2, 3, 4] (nat 1) (nat 3)"
    using move_song_relocates [OF wf, of 1 3] by (simp add: INT_MAX_def) blast
  then have a: "move_song ?h ?pl 1 3 \<bind> (\<lambda>(h', pl'). get_all_songs h' pl') = Some [1, 3, 2, 4]"
    unfolding m13 by auto
  have "\<exists>h' pl' ys. move_song ?h ?pl 3 1 = Some (h', pl') \<and> get_all_songs h' pl' = Some ys
          \<and> ys = moved [1, 2, 3, 4] (nat 3) (nat 1)"
    using move_song_relocates [OF wf, of 3 1] by (simp add: INT_MAX_def) blast
  then have b: "move_song ?h ?pl 3 1 \<bind> (\<lambda>(h', pl'). get_all_songs h' pl') = Some [1, 4, 2, 3]"
    unfolding m31 by auto
  from a b show ?thesis by (rule conjI)
qed

section \<open>Building a catalog\<close>

text \<open>
  The constructor leaves both anchors null, which is the empty catalog, and \<open>add_song\<close> with a
  fresh address appends to the catalog; so the catalogs the program builds are well formed.
\<close>

lemma empty_playlist: "is_playlist h \<lparr>head = None, tail = None\<rparr> []"
  by (simp add: is_playlist_def)

lemma get_next_new: "get_next (h(a \<mapsto> s)) = (get_next h)(a \<mapsto> next s)"
  by (rule ext) (simp add: get_next_def)

lemma get_prev_new: "get_prev (h(a \<mapsto> s)) = (get_prev h)(a \<mapsto> prev s)"
  by (rule ext) (simp add: get_prev_def)

lemma add_song_playlist:
  assumes wf: "is_playlist h pl xs" and fresh: "h a = None"
  shows "\<exists>h' pl'. add_song h pl a t ar g d = Some (h', pl') \<and> is_playlist h' pl' (xs @ [a])
           \<and> (\<exists>s. h' a = Some s \<and> title s = t \<and> artist s = ar \<and> genre s = g \<and> duration s = d)"
proof -
  let ?s = "\<lparr>title = t, artist = ar, genre = g, duration = d, prev = None, next = None\<rparr>"
  let ?h0 = "h(a \<mapsto> ?s)"
  let ?N = "get_next h" and ?P = "get_prev h"
  from wf have pn: "path ?N (head pl) xs None" and pp: "path ?P (tail pl) (rev xs) None"
    by (simp_all add: is_playlist_def)
  from playlist_anchors [OF wf] have hd: "head pl = first xs" and tl: "tail pl = first (rev xs)" .
  have notin: "a \<notin> set xs"
    using playlist_allocated [OF wf, of a] fresh by auto
  have N0: "get_next ?h0 = ?N(a \<mapsto> None)" and P0: "get_prev ?h0 = ?P(a \<mapsto> None)"
    by (simp_all add: get_next_new get_prev_new)
  show ?thesis
  proof (cases xs rule: rev_cases)
    case Nil
    then have "add_song h pl a t ar g d = Some (?h0, pl\<lparr>head := Some a, tail := Some a\<rparr>)"
      by (simp add: add_song_def hd)
    moreover have "is_playlist ?h0 (pl\<lparr>head := Some a, tail := Some a\<rparr>) [a]"
      by (simp add: is_playlist_def N0 P0)
    ultimately show ?thesis using Nil by simp
  next
    case (snoc ys l)
    then have tl': "tail pl = Some l" by (simp add: tl)
    from snoc have "xs \<noteq> []" by simp
    then have hd': "head pl \<noteq> None" by (cases xs) (simp_all add: hd)
    from snoc have "h l \<noteq> None" using playlist_allocated [OF wf, of l] by auto
    moreover from snoc notin have la: "l \<noteq> a" by auto
    ultimately have "?h0 l \<noteq> None" by simp
    then obtain h1 where s1: "set_next ?h0 l (Some a) = Some h1"
      and N1: "get_next h1 = (get_next ?h0)(l \<mapsto> Some a)" and P1: "get_prev h1 = get_prev ?h0"
      and A1: "\<And>b. (h1 b = None) = (?h0 b = None)"
      by (rule set_next_fields [where v = "Some a"]) blast
    have d1: "h1 a = Some ?s"
      using s1 la by (auto simp: set_next_def split: option.splits)
    then have "h1 a \<noteq> None" by simp
    then obtain h2 where s2: "set_prev h1 a (Some l) = Some h2"
      and P2: "get_prev h2 = (get_prev h1)(a \<mapsto> Some l)" and N2: "get_next h2 = get_next h1"
      by (rule set_prev_fields [where v = "Some l"]) blast
    have d2: "h2 a = Some (?s\<lparr>prev := Some l\<rparr>)"
      using s2 d1 by (auto simp: set_prev_def)
    from hd' obtain y where hdy: "head pl = Some y" by auto
    have res: "add_song h pl a t ar g d = Some (h2, pl\<lparr>tail := Some a\<rparr>)"
      by (simp add: add_song_def hdy tl' s1 s2 Let_def)
    have "path (get_next h2) (head pl) (xs @ [a]) None"
    proof -
      from pn have "path ?N (head pl) (xs @ []) None" by simp
      moreover from notin have "a \<notin> set (xs @ [])" by simp
      ultimately have "path ((if xs = [] then ?N else ?N(last xs \<mapsto> Some a))(a \<mapsto> first []))
                         (first (xs @ a # [])) (xs @ a # []) None"
        by (rule splice_in)
      moreover have "(if xs = [] then ?N else ?N(last xs \<mapsto> Some a))(a \<mapsto> first []) = get_next h2"
        using la by (auto simp: snoc N2 N1 N0 fun_eq_iff)
      moreover have "first (xs @ a # []) = head pl"
        by (simp add: hd first_append snoc)
      ultimately show ?thesis by simp
    qed
    moreover have "path (get_prev h2) (Some a) (rev (xs @ [a])) None"
    proof -
      have "path (?P(a \<mapsto> first (rev xs))) (Some a) (a # rev xs) None"
        using splice_in [of ?P "tail pl" "[]" "rev xs" a] pp notin by simp
      moreover have "?P(a \<mapsto> first (rev xs)) = get_prev h2"
        by (auto simp: P2 P1 P0 fun_eq_iff tl [symmetric] tl')
      ultimately show ?thesis by simp
    qed
    ultimately have "is_playlist h2 (pl\<lparr>tail := Some a\<rparr>) (xs @ [a])"
      by (simp add: is_playlist_def)
    with res d2 show ?thesis by simp
  qed
qed

end
